theory Spec2Isabelle
  imports Main
begin

section \<open>ElementalDB: the table engine\<close>

text \<open>
  A shallow embedding of \<^verbatim>\<open>ElementalDB.py\<close>: class \<^verbatim>\<open>Table\<close> (records with a
  per-column value index) and class \<^verbatim>\<open>ElementalDB\<close> (named tables, snapshot files,
  the authentication gate and the search cache).

  Python mutates objects in place and an exception leaves every mutation made before it.
  Each method is therefore a function from the state to a pair: what was raised
  (\<open>None\<close> when the call returned) and the state the call left behind.
\<close>

subsection \<open>Values, errors, dictionaries\<close>

text \<open>
  Cell values are Python values: integers and strings, which can be dictionary keys, and
  lists, which cannot (\<^verbatim>\<open>TypeError: unhashable type\<close> wherever one is used as a key).
  Positions are Python integers, so \<open>i - 1\<close> may go negative and indexing a list
  with a negative integer counts from the end.
\<close>

datatype val = IntV int | StrV string | ListV "val list"

fun hashable :: "val \<Rightarrow> bool" where
  "hashable (IntV i) = True"
| "hashable (StrV s) = True"
| "hashable (ListV vs) = False"

text \<open>
  The exceptions of the source, named after what they report:
  \<^item> \<open>SchemaMismatch\<close>: \<^verbatim>\<open>ValueError("Record does not match the number of defined columns.")\<close>
    and \<^verbatim>\<open>ValueError("Data does not match the number of columns.")\<close>;
  \<^item> \<open>OutOfRange\<close>: \<^verbatim>\<open>ValueError("Row number out of range.")\<close>;
  \<^item> \<open>TableNotFound\<close>: \<^verbatim>\<open>ValueError("Table ... does not exist.")\<close> of add, update, delete, search;
  \<^item> \<open>MissingSnapshot\<close>: the same message, raised by \<^verbatim>\<open>load_table\<close> when the file is absent;
  \<^item> \<open>TableExists\<close>: \<^verbatim>\<open>ValueError("Table ... already exists. ...")\<close>;
  \<^item> \<open>Unauthenticated\<close>: \<^verbatim>\<open>PermissionError\<close>;
  \<^item> \<open>EmailExists\<close>, \<open>EmailNotFound\<close>, \<open>InvalidPassword\<close>: the \<^verbatim>\<open>ValueError\<close>s of signup and signin;
  \<^item> \<open>KeyError\<close>, \<open>IndexError\<close>: a missing dictionary key, a list index out of range;
  \<^item> \<open>TypeError\<close>: an unhashable value used as a dictionary key;
  \<^item> \<open>EncodeError\<close>: \<^verbatim>\<open>orjson.JSONEncodeError\<close>, a snapshot \<^verbatim>\<open>orjson.dumps\<close> refuses;
  \<^item> \<open>CorruptSnapshot\<close>: \<^verbatim>\<open>orjson.JSONDecodeError\<close>, a file \<^verbatim>\<open>orjson.loads\<close> refuses;
  \<^item> \<open>NotInList\<close>: the \<^verbatim>\<open>ValueError\<close> of \<^verbatim>\<open>list.remove(x)\<close> when \<open>x\<close> is not in the list.
\<close>

datatype error =
    SchemaMismatch | OutOfRange | TableNotFound | MissingSnapshot | TableExists
  | Unauthenticated | EmailExists | EmailNotFound | InvalidPassword
  | KeyError | IndexError | NotInList | TypeError | EncodeError | CorruptSnapshot

type_synonym column = string

text \<open>
  A record is the dictionary \<^verbatim>\<open>dict(zip(self.columns, record))\<close>: insertion ordered,
  one entry per key. Storing under a key that is present replaces the value in place;
  a new key goes to the end.
\<close>

type_synonym record_dict = "(column \<times> val) list"

fun dict_set :: "('k \<times> 'v) list \<Rightarrow> 'k \<Rightarrow> 'v \<Rightarrow> ('k \<times> 'v) list" where
  "dict_set [] k v = [(k, v)]"
| "dict_set ((k', v') # d) k v = (if k' = k then (k, v) # d else (k', v') # dict_set d k v)"

fun dict_of :: "('k \<times> 'v) list \<Rightarrow> ('k \<times> 'v) list \<Rightarrow> ('k \<times> 'v) list" where
  "dict_of d [] = d"
| "dict_of d ((k, v) # kvs) = dict_of (dict_set d k v) kvs"

definition dict_zip :: "column list \<Rightarrow> val list \<Rightarrow> record_dict" where
  "dict_zip cols vals = dict_of [] (zip cols vals)"

text \<open>
  The index \<^verbatim>\<open>indexed_data\<close> is a dictionary from column to a dictionary from value to
  the list of positions holding it. No operation depends on the order of its keys, so
  it is a map; the buckets are lists, whose order \<^verbatim>\<open>search\<close> returns.
\<close>

type_synonym index = "column \<rightharpoonup> (val \<rightharpoonup> int list)"

record table =
  name :: string
  columns :: "column list"
  records :: "record_dict list"
  indexed_data :: index

text \<open>
  \<^verbatim>\<open>xs[i]\<close> for a Python integer \<open>i\<close>: from the front when \<open>i\<close> is not negative,
  from the end when it is, \<^verbatim>\<open>IndexError\<close> outside \<open>-len(xs) .. len(xs) - 1\<close>.
\<close>

definition py_index :: "'a list \<Rightarrow> int \<Rightarrow> error + 'a" where
  "py_index xs i =
     (if 0 \<le> i \<and> i < int (length xs) then Inr (xs ! nat i)
      else if i < 0 \<and> - int (length xs) \<le> i then Inr (xs ! nat (int (length xs) + i))
      else Inl IndexError)"

subsection \<open>Class Table\<close>

definition Table_init :: "string \<Rightarrow> column list \<Rightarrow> table" where
  "Table_init nm cols =
     \<lparr>name = nm, columns = cols, records = [],
      indexed_data = (\<lambda>c. if c \<in> set cols then Some Map.empty else None)\<rparr>"

text \<open>
  \<^verbatim>\<open>for col, value in d.items(): self.indexed_data[col].setdefault(value, []).append(p)\<close>.
  \<^verbatim>\<open>self.indexed_data[col]\<close> is looked up first, then \<^verbatim>\<open>setdefault\<close> hashes the value.
\<close>

fun index_append :: "index \<Rightarrow> record_dict \<Rightarrow> int \<Rightarrow> error option \<times> index" where
  "index_append idx [] p = (None, idx)"
| "index_append idx ((col, value) # items) p =
     (case idx col of
        None \<Rightarrow> (Some KeyError, idx)
      | Some m \<Rightarrow>
          if \<not> hashable value then (Some TypeError, idx)
          else
            index_append
              (idx(col \<mapsto> m(value \<mapsto> (case m value of None \<Rightarrow> [] | Some b \<Rightarrow> b) @ [p])))
              items p)"

fun Table_add_records :: "table \<Rightarrow> val list list \<Rightarrow> error option \<times> table" where
  "Table_add_records t [] = (None, t)"
| "Table_add_records t (record # rest) =
     (if length record \<noteq> length (columns t) then (Some SchemaMismatch, t)
      else
        let record_dict = dict_zip (columns t) record;
            recs = records t @ [record_dict];
            (e, idx) = index_append (indexed_data t) record_dict (int (length recs) - 1);
            t' = t\<lparr>records := recs, indexed_data := idx\<rparr>
        in case e of Some err \<Rightarrow> (Some err, t') | None \<Rightarrow> Table_add_records t' rest)"

text \<open>
  \<^verbatim>\<open>for col, value in old_record.items(): self.indexed_data[col][value].remove(p)\<close>
\<close>

fun index_remove :: "index \<Rightarrow> record_dict \<Rightarrow> int \<Rightarrow> error option \<times> index" where
  "index_remove idx [] p = (None, idx)"
| "index_remove idx ((col, value) # items) p =
     (case idx col of
        None \<Rightarrow> (Some KeyError, idx)
      | Some m \<Rightarrow>
          if \<not> hashable value then (Some TypeError, idx)
          else
            (case m value of
               None \<Rightarrow> (Some KeyError, idx)
             | Some b \<Rightarrow>
                 if p \<notin> set b then (Some NotInList, idx)
                 else index_remove (idx(col \<mapsto> m(value \<mapsto> remove1 p b))) items p))"

definition Table_update :: "table \<Rightarrow> int \<Rightarrow> val list \<Rightarrow> error option \<times> table" where
  "Table_update t row_number data =
     (if \<not> (1 \<le> row_number \<and> row_number \<le> int (length (records t))) then (Some OutOfRange, t)
      else if length data \<noteq> length (columns t) then (Some SchemaMismatch, t)
      else
        let old_record = records t ! nat (row_number - 1);
            (e, idx) = index_remove (indexed_data t) old_record (row_number - 1)
        in case e of
             Some err \<Rightarrow> (Some err, t\<lparr>indexed_data := idx\<rparr>)
           | None \<Rightarrow>
               let new_record = dict_zip (columns t) data;
                   recs = (records t)[nat (row_number - 1) := new_record];
                   (e', idx') = index_append idx new_record (row_number - 1)
               in (e', t\<lparr>records := recs, indexed_data := idx'\<rparr>))"

text \<open>
  The first loop of \<^verbatim>\<open>delete\<close>: remove the position from the bucket of each value of
  the deleted record, and delete the bucket when that empties it.
\<close>

fun index_remove_drop :: "index \<Rightarrow> record_dict \<Rightarrow> int \<Rightarrow> error option \<times> index" where
  "index_remove_drop idx [] p = (None, idx)"
| "index_remove_drop idx ((col, value) # items) p =
     (case idx col of
        None \<Rightarrow> (Some KeyError, idx)
      | Some m \<Rightarrow>
          if \<not> hashable value then (Some TypeError, idx)
          else
            (case m value of
               None \<Rightarrow> (Some KeyError, idx)
             | Some b \<Rightarrow>
                 if p \<notin> set b then (Some NotInList, idx)
                 else if remove1 p b = [] then
                   index_remove_drop (idx(col \<mapsto> m(value := None))) items p
                 else index_remove_drop (idx(col \<mapsto> m(value \<mapsto> remove1 p b))) items p))"

text \<open>
  The second loop of \<^verbatim>\<open>delete\<close>, over every column and every value:
  \<^verbatim>\<open>[i if i < row_number - 1 else i - 1 for i in bucket]\<close>.
\<close>

definition renumber :: "index \<Rightarrow> int \<Rightarrow> index" where
  "renumber idx p =
     (\<lambda>col. case idx col of
        None \<Rightarrow> None
      | Some m \<Rightarrow>
          Some (\<lambda>value. case m value of
                  None \<Rightarrow> None
                | Some b \<Rightarrow> Some (map (\<lambda>i. if i < p then i else i - 1) b)))"

definition Table_delete :: "table \<Rightarrow> int \<Rightarrow> error option \<times> table" where
  "Table_delete t row_number =
     (if \<not> (1 \<le> row_number \<and> row_number \<le> int (length (records t))) then (Some OutOfRange, t)
      else
        let record_to_delete = records t ! nat (row_number - 1);
            recs = take (nat (row_number - 1)) (records t) @ drop (Suc (nat (row_number - 1))) (records t);
            (e, idx) = index_remove_drop (indexed_data t) record_to_delete (row_number - 1)
        in case e of
             Some err \<Rightarrow> (Some err, t\<lparr>records := recs, indexed_data := idx\<rparr>)
           | None \<Rightarrow> (None, t\<lparr>records := recs, indexed_data := renumber idx (row_number - 1)\<rparr>))"

text \<open>
  \<^verbatim>\<open>self.indexed_data.get(col, {}).get(value, [])\<close>: \<open>bucket\<close> is what it returns
  for a value that can be hashed; \<^verbatim>\<open>.get\<close> hashes its key also when the dictionary is
  empty, so for a list it raises.
\<close>

definition bucket :: "index \<Rightarrow> column \<Rightarrow> val \<Rightarrow> int list" where
  "bucket idx col value =
     (case idx col of
        None \<Rightarrow> []
      | Some m \<Rightarrow> (case m value of None \<Rightarrow> [] | Some b \<Rightarrow> b))"

definition bucket_get :: "index \<Rightarrow> column \<Rightarrow> val \<Rightarrow> error + int list" where
  "bucket_get idx col value =
     (if hashable value then Inr (bucket idx col value) else Inl TypeError)"

text \<open>
  \<^verbatim>\<open>[self.records[i] for col in in_columns for i in ...get(col, {}).get(value, [])]\<close>:
  for each column in turn the bucket is looked up, then its records are read; the
  comprehension raises at the first lookup or index that fails.
\<close>

fun fetch :: "'a list \<Rightarrow> int list \<Rightarrow> error + 'a list" where
  "fetch recs [] = Inr []"
| "fetch recs (i # is) =
     (case py_index recs i of
        Inl e \<Rightarrow> Inl e
      | Inr r \<Rightarrow> (case fetch recs is of Inl e \<Rightarrow> Inl e | Inr rs \<Rightarrow> Inr (r # rs)))"

fun Table_search :: "table \<Rightarrow> val \<Rightarrow> column list \<Rightarrow> error + record_dict list" where
  "Table_search t value [] = Inr []"
| "Table_search t value (col # in_columns) =
     (case bucket_get (indexed_data t) col value of
        Inl e \<Rightarrow> Inl e
      | Inr b \<Rightarrow>
          (case fetch (records t) b of
             Inl e \<Rightarrow> Inl e
           | Inr rs \<Rightarrow>
               (case Table_search t value in_columns of
                  Inl e \<Rightarrow> Inl e
                | Inr rest \<Rightarrow> Inr (rs @ rest))))"

declare Table_search.simps [simp del]

text \<open>A snapshot is the dictionary \<^verbatim>\<open>{'columns': ..., 'records': ...}\<close>.\<close>

record snapshot =
  snap_columns :: "column list"
  snap_records :: "record_dict list"

definition Table_to_dict :: "table \<Rightarrow> snapshot" where
  "Table_to_dict t = \<lparr>snap_columns = columns t, snap_records = records t\<rparr>"

text \<open>
  \<^verbatim>\<open>for index, record in enumerate(self.records): for col, value in record.items(): ...\<close>
\<close>

fun index_rebuild :: "index \<Rightarrow> (nat \<times> record_dict) list \<Rightarrow> error option \<times> index" where
  "index_rebuild idx [] = (None, idx)"
| "index_rebuild idx ((i, r) # rest) =
     (case index_append idx r (int i) of
        (Some err, idx') \<Rightarrow> (Some err, idx')
      | (None, idx') \<Rightarrow> index_rebuild idx' rest)"

definition Table_from_dict :: "table \<Rightarrow> snapshot \<Rightarrow> error option \<times> table" where
  "Table_from_dict t data =
     (let cols = snap_columns data;
          recs = snap_records data;
          (e, idx) = index_rebuild (\<lambda>c. if c \<in> set cols then Some Map.empty else None)
                       (enumerate 0 recs)
      in (e, t\<lparr>columns := cols, records := recs, indexed_data := idx\<rparr>))"

subsection \<open>Sequences of calls on one table\<close>

datatype table_call = AddRecords "val list list" | Update int "val list" | Delete int

fun table_step :: "table \<Rightarrow> table_call \<Rightarrow> table" where
  "table_step t (AddRecords rs) = snd (Table_add_records t rs)"
| "table_step t (Update row_number data) = snd (Table_update t row_number data)"
| "table_step t (Delete row_number) = snd (Table_delete t row_number)"

text \<open>
  The table a caller holds after creating it and making the calls in order, whether or
  not a call raised.
\<close>

definition table_after :: "string \<Rightarrow> column list \<Rightarrow> table_call list \<Rightarrow> table" where
  "table_after nm cols calls = foldl table_step (Table_init nm cols) calls"

subsection \<open>Class ElementalDB\<close>

text \<open>
  The engine's fields, and \<open>disk\<close>: the files \<^verbatim>\<open>database/<name>.json\<close>. A file
  is \<open>Written\<close> with what \<^verbatim>\<open>to_dict\<close> returned (the bytes are not modelled), or
  \<open>Emptied\<close>: opened with mode \<^verbatim>\<open>'wb'\<close>, which truncates it, and never written.
  The cache key is \<^verbatim>\<open>(table_name, value, tuple(in_columns))\<close>.
\<close>

datatype snapshot_file = Emptied | Written snapshot

type_synonym cache_key = "string \<times> val \<times> column list"

record elementaldb =
  tables :: "string \<rightharpoonup> table"
  auth_enabled :: bool
  auth_data :: "string \<rightharpoonup> string"
  current_user :: "string option"
  cache :: "cache_key \<rightharpoonup> record_dict list"
  disk :: "string \<rightharpoonup> snapshot_file"

text \<open>\<^verbatim>\<open>not self.current_user\<close>: true for \<^verbatim>\<open>None\<close> and for the empty string.\<close>

definition no_user :: "elementaldb \<Rightarrow> bool" where
  "no_user db = (case current_user db of None \<Rightarrow> True | Some u \<Rightarrow> u = [])"

text \<open>
  \<^verbatim>\<open>signup\<close> stores \<^verbatim>\<open>bcrypt.hashpw(password, gensalt())\<close>, here the argument
  \<open>hashed\<close>; \<^verbatim>\<open>signin\<close> takes the verdict of \<^verbatim>\<open>bcrypt.checkpw\<close> on the stored hash
  as the function \<open>checkpw\<close>. The file \<^verbatim>\<open>auth.auth\<close> mirrors \<open>auth_data\<close> and is
  not modelled apart from it.
\<close>

definition signup :: "elementaldb \<Rightarrow> string \<Rightarrow> string \<Rightarrow> error option \<times> elementaldb" where
  "signup db email hashed =
     (if auth_data db email \<noteq> None then (Some EmailExists, db)
      else (None, db\<lparr>auth_data := (auth_data db)(email \<mapsto> hashed)\<rparr>))"

definition signin :: "elementaldb \<Rightarrow> string \<Rightarrow> (string \<Rightarrow> bool) \<Rightarrow> error option \<times> elementaldb" where
  "signin db email checkpw =
     (case auth_data db email of
        None \<Rightarrow> (Some EmailNotFound, db)
      | Some hashed_password \<Rightarrow>
          if checkpw hashed_password then (None, db\<lparr>current_user := Some email\<rparr>)
          else (Some InvalidPassword, db))"

definition logout :: "elementaldb \<Rightarrow> elementaldb" where
  "logout db = (if \<not> no_user db then db\<lparr>current_user := None\<rparr> else db)"

definition table_create ::
  "elementaldb \<Rightarrow> string \<Rightarrow> column list \<Rightarrow> bool \<Rightarrow> error option \<times> elementaldb" where
  "table_create db nm cols overwrite =
     (if auth_enabled db \<and> no_user db then (Some Unauthenticated, db)
      else if tables db nm \<noteq> None \<and> \<not> overwrite then (Some TableExists, db)
      else (None, db\<lparr>tables := (tables db)(nm \<mapsto> Table_init nm cols)\<rparr>))"

text \<open>
  \<^verbatim>\<open>save_table\<close> opens the file for writing and then calls \<^verbatim>\<open>orjson.dumps\<close>, which
  raises on a snapshot it cannot encode (an integer outside 64 bits, for one) and leaves
  the file empty. Which snapshots \<^verbatim>\<open>orjson.dumps\<close> encodes is the parameter
  \<open>accepts\<close> of every function that saves.
\<close>

definition save_table ::
  "(snapshot \<Rightarrow> bool) \<Rightarrow> elementaldb \<Rightarrow> string \<Rightarrow> error option \<times> elementaldb" where
  "save_table accepts db table_name =
     (case tables db table_name of
        None \<Rightarrow> (None, db)
      | Some t \<Rightarrow>
          if accepts (Table_to_dict t)
          then (None, db\<lparr>disk := (disk db)(table_name \<mapsto> Written (Table_to_dict t))\<rparr>)
          else (Some EncodeError, db\<lparr>disk := (disk db)(table_name \<mapsto> Emptied)\<rparr>))"

definition load_table :: "elementaldb \<Rightarrow> string \<Rightarrow> error option \<times> elementaldb" where
  "load_table db table_name =
     (case disk db table_name of
        None \<Rightarrow> (Some MissingSnapshot, db)
      | Some Emptied \<Rightarrow> (Some CorruptSnapshot, db)
      | Some (Written data) \<Rightarrow>
          (case Table_from_dict (Table_init table_name (snap_columns data)) data of
             (Some err, t) \<Rightarrow> (Some err, db)
           | (None, t) \<Rightarrow> (None, db\<lparr>tables := (tables db)(table_name \<mapsto> t)\<rparr>)))"

definition add ::
  "(snapshot \<Rightarrow> bool) \<Rightarrow> elementaldb \<Rightarrow> string \<Rightarrow> val list list \<Rightarrow>
     error option \<times> elementaldb" where
  "add accepts db table_name recs =
     (if auth_enabled db \<and> no_user db then (Some Unauthenticated, db)
      else
        case tables db table_name of
          None \<Rightarrow> (Some TableNotFound, db)
        | Some t \<Rightarrow>
            (case Table_add_records t recs of
               (Some err, t') \<Rightarrow> (Some err, db\<lparr>tables := (tables db)(table_name \<mapsto> t')\<rparr>)
             | (None, t') \<Rightarrow>
                 save_table accepts (db\<lparr>tables := (tables db)(table_name \<mapsto> t')\<rparr>) table_name))"

text \<open>
  \<^verbatim>\<open>update\<close> and \<^verbatim>\<open>delete\<close> hand the bound method \<^verbatim>\<open>table.update\<close> or
  \<^verbatim>\<open>table.delete\<close> to a \<^verbatim>\<open>ProcessPoolExecutor\<close>. The executor pickles the method
  with its table and the worker process runs it on the unpickled copy: what comes back
  is the return value or the exception, and the table of the engine stays as it was.
  Then \<^verbatim>\<open>save_table\<close> writes that table.
\<close>

definition update ::
  "(snapshot \<Rightarrow> bool) \<Rightarrow> elementaldb \<Rightarrow> string \<Rightarrow> int \<Rightarrow> val list \<Rightarrow>
     error option \<times> elementaldb" where
  "update accepts db table_name row_number data =
     (if auth_enabled db \<and> no_user db then (Some Unauthenticated, db)
      else
        case tables db table_name of
          None \<Rightarrow> (Some TableNotFound, db)
        | Some t \<Rightarrow>
            (case Table_update t row_number data of
               (Some err, worker_copy) \<Rightarrow> (Some err, db)
             | (None, worker_copy) \<Rightarrow> save_table accepts db table_name))"

definition delete ::
  "(snapshot \<Rightarrow> bool) \<Rightarrow> elementaldb \<Rightarrow> string \<Rightarrow> int \<Rightarrow> error option \<times> elementaldb" where
  "delete accepts db table_name row_number =
     (if auth_enabled db \<and> no_user db then (Some Unauthenticated, db)
      else
        case tables db table_name of
          None \<Rightarrow> (Some TableNotFound, db)
        | Some t \<Rightarrow>
            (case Table_delete t row_number of
               (Some err, worker_copy) \<Rightarrow> (Some err, db)
             | (None, worker_copy) \<Rightarrow> save_table accepts db table_name))"

text \<open>
  \<^verbatim>\<open>cache_key in self.cache\<close> hashes the key, a tuple that holds the value: a value
  that cannot be hashed raises there, before the tables are looked at.
\<close>

definition search ::
  "elementaldb \<Rightarrow> string \<Rightarrow> val \<Rightarrow> column list \<Rightarrow> (error + record_dict list) \<times> elementaldb" where
  "search db table_name value in_columns =
     (let cache_key = (table_name, value, in_columns)
      in if \<not> hashable value then (Inl TypeError, db)
         else
           case cache db cache_key of
             Some cached \<Rightarrow> (Inr cached, db)
           | None \<Rightarrow>
               (case tables db table_name of
                  None \<Rightarrow> (Inl TableNotFound, db)
                | Some t \<Rightarrow>
                    (case Table_search t value in_columns of
                       Inl err \<Rightarrow> (Inl err, db)
                     | Inr results \<Rightarrow>
                         (Inr results, db\<lparr>cache := (cache db)(cache_key \<mapsto> results)\<rparr>))))"

text \<open>\<^verbatim>\<open>ElementalDB(auth)\<close> in a directory whose \<^verbatim>\<open>auth.auth\<close> holds \<open>creds\<close> and whose
  \<^verbatim>\<open>database/\<close> holds \<open>files\<close>.\<close>

definition ElementalDB_init ::
  "bool \<Rightarrow> (string \<rightharpoonup> string) \<Rightarrow> (string \<rightharpoonup> snapshot_file) \<Rightarrow> elementaldb" where
  "ElementalDB_init auth creds files =
     \<lparr>tables = Map.empty, auth_enabled = auth, auth_data = creds, current_user = None,
      cache = Map.empty, disk = files\<rparr>"

text \<open>Sequences of engine calls; what a call raised is dropped, its effect is kept.\<close>

datatype db_call =
    Signup string string
  | Signin string "string \<Rightarrow> bool"
  | Logout
  | TableCreate string "column list" bool
  | SaveTable string
  | LoadTable string
  | Add string "val list list"
  | DbUpdate string int "val list"
  | DbDelete string int
  | Search string val "column list"

fun db_step :: "(snapshot \<Rightarrow> bool) \<Rightarrow> elementaldb \<Rightarrow> db_call \<Rightarrow> elementaldb" where
  "db_step accepts db (Signup email hashed) = snd (signup db email hashed)"
| "db_step accepts db (Signin email checkpw) = snd (signin db email checkpw)"
| "db_step accepts db Logout = logout db"
| "db_step accepts db (TableCreate nm cols overwrite) = snd (table_create db nm cols overwrite)"
| "db_step accepts db (SaveTable nm) = snd (save_table accepts db nm)"
| "db_step accepts db (LoadTable nm) = snd (load_table db nm)"
| "db_step accepts db (Add nm recs) = snd (add accepts db nm recs)"
| "db_step accepts db (DbUpdate nm row_number data) = snd (update accepts db nm row_number data)"
| "db_step accepts db (DbDelete nm row_number) = snd (delete accepts db nm row_number)"
| "db_step accepts db (Search nm value in_columns) = snd (search db nm value in_columns)"

definition db_run :: "(snapshot \<Rightarrow> bool) \<Rightarrow> elementaldb \<Rightarrow> db_call list \<Rightarrow> elementaldb" where
  "db_run accepts db calls = foldl (db_step accepts) db calls"

section \<open>Properties of the table engine\<close>

subsection \<open>What the index loops compute\<close>

text \<open>
  When no step of a loop raises, the loop changes, in each column of the record, the
  bucket of the value the record holds there: \<open>ins\<close> appends the position
  (\<open>index_append\<close>), \<open>rem\<close> removes it (\<open>index_remove\<close>), \<open>remd\<close> removes it and
  deletes the bucket it empties (\<open>index_remove_drop\<close>). \<open>held\<close> says that no step
  of the removing loops raises.
\<close>

definition ins :: "index \<Rightarrow> record_dict \<Rightarrow> int \<Rightarrow> index" where
  "ins idx r p =
     (\<lambda>c. case idx c of
        None \<Rightarrow> None
      | Some m \<Rightarrow>
          (case map_of r c of
             None \<Rightarrow> Some m
           | Some v \<Rightarrow> Some (m(v \<mapsto> (case m v of None \<Rightarrow> [] | Some b \<Rightarrow> b) @ [p]))))"

definition rem :: "index \<Rightarrow> record_dict \<Rightarrow> int \<Rightarrow> index" where
  "rem idx r p =
     (\<lambda>c. case idx c of
        None \<Rightarrow> None
      | Some m \<Rightarrow>
          (case map_of r c of
             None \<Rightarrow> Some m
           | Some v \<Rightarrow> Some (m(v \<mapsto> remove1 p (case m v of None \<Rightarrow> [] | Some b \<Rightarrow> b)))))"

definition held :: "index \<Rightarrow> record_dict \<Rightarrow> int \<Rightarrow> bool" where
  "held idx r p \<longleftrightarrow>
     (\<forall>(c, v) \<in> set r. hashable v \<and> (\<exists>m b. idx c = Some m \<and> m v = Some b \<and> p \<in> set b))"

definition remd :: "index \<Rightarrow> record_dict \<Rightarrow> int \<Rightarrow> index" where
  "remd idx r p =
     (\<lambda>c. case idx c of
        None \<Rightarrow> None
      | Some m \<Rightarrow>
          (case map_of r c of
             None \<Rightarrow> Some m
           | Some v \<Rightarrow>
               Some (m(v := (let b = remove1 p (case m v of None \<Rightarrow> [] | Some b \<Rightarrow> b)
                             in if b = [] then None else Some b)))))"

subsection \<open>The invariant\<close>

text \<open>
  The positions that hold value \<open>v\<close> in column \<open>c\<close>, and the invariant of a table:
  the index has exactly the table's columns, every record has exactly one value for
  each column and each can be hashed, and every bucket lists, once each, the positions
  that hold its value.
\<close>

definition holders :: "record_dict list \<Rightarrow> column \<Rightarrow> val \<Rightarrow> int set" where
  "holders recs c v = {i. 0 \<le> i \<and> i < int (length recs) \<and> map_of (recs ! nat i) c = Some v}"

definition record_ok :: "column list \<Rightarrow> record_dict \<Rightarrow> bool" where
  "record_ok cols r \<longleftrightarrow>
     distinct (map fst r) \<and> fst ` set r = set cols \<and> (\<forall>v \<in> snd ` set r. hashable v)"

definition table_inv :: "table \<Rightarrow> bool" where
  "table_inv t \<longleftrightarrow>
     dom (indexed_data t) = set (columns t) \<and>
     (\<forall>r \<in> set (records t). record_ok (columns t) r) \<and>
     (\<forall>c \<in> set (columns t). \<forall>v.
        distinct (bucket (indexed_data t) c v) \<and>
        set (bucket (indexed_data t) c v) = holders (records t) c v)"

text \<open>
  Index consistency as the specification words it: for every column \<open>c\<close> and every
  position \<open>p\<close> with a record, \<open>record[p][c]\<close> is a key of \<open>index[c]\<close>, \<open>p\<close> is in
  its bucket, and no other bucket of \<open>index[c]\<close> contains \<open>p\<close>. \<open>no_stale\<close>: every
  position stored under a value is the position of a record that holds the value.
\<close>

definition index_consistent :: "table \<Rightarrow> bool" where
  "index_consistent t \<longleftrightarrow>
     (\<forall>c \<in> set (columns t). \<forall>p < length (records t).
        \<exists>v m b. map_of (records t ! p) c = Some v \<and> indexed_data t c = Some m \<and>
          m v = Some b \<and> int p \<in> set b \<and>
          (\<forall>v' b'. m v' = Some b' \<longrightarrow> v' \<noteq> v \<longrightarrow> int p \<notin> set b'))"

definition no_stale :: "table \<Rightarrow> bool" where
  "no_stale t \<longleftrightarrow>
     (\<forall>c m v b i. indexed_data t c = Some m \<longrightarrow> m v = Some b \<longrightarrow> i \<in> set b \<longrightarrow>
        0 \<le> i \<and> i < int (length (records t)) \<and> map_of (records t ! nat i) c = Some v)"


text \<open>
  Calls whose cells can all be hashed: the records of an \<^verbatim>\<open>add_records\<close>, the data of
  an \<^verbatim>\<open>update\<close>.
\<close>

fun call_hashable :: "table_call \<Rightarrow> bool" where
  "call_hashable (AddRecords rs) = list_all (list_all hashable) rs"
| "call_hashable (Update row_number data) = list_all hashable data"
| "call_hashable (Delete row_number) = True"

definition calls_hashable :: "table_call list \<Rightarrow> bool" where
  "calls_hashable calls = list_all call_hashable calls"

subsection \<open>Example states\<close>

text \<open>
  Scenario A of the specification: table \<open>Users\<close> with columns id, name, age and the
  records of Alice and Bob; as a table, and as an engine without authentication that
  created the table and added the records, with \<^verbatim>\<open>orjson.dumps\<close> encoding the
  snapshots that \<open>accepts\<close> holds of.
\<close>

definition users :: table where
  "users = table_after ''Users'' [''id'', ''name'', ''age'']
     [AddRecords [[IntV 1, StrV ''Alice'', IntV 30], [IntV 2, StrV ''Bob'', IntV 25]]]"

definition scenario_A :: "(snapshot \<Rightarrow> bool) \<Rightarrow> elementaldb" where
  "scenario_A accepts = db_run accepts (ElementalDB_init False Map.empty Map.empty)
     [TableCreate ''Users'' [''id'', ''name'', ''age''] False,
      Add ''Users'' [[IntV 1, StrV ''Alice'', IntV 30], [IntV 2, StrV ''Bob'', IntV 25]]]"

text \<open>The calls of the example program, on the table of Scenario A's columns.\<close>

definition users_history :: "table_call list" where
  "users_history =
     [AddRecords [[IntV 1, StrV ''Alice'', IntV 30], [IntV 2, StrV ''Bob'', IntV 25]],
      Update 1 [IntV 1, StrV ''Alice'', IntV 31],
      Delete 1]"

text \<open>A table with one column and no record in an engine; one record; one record updated
  to another value; a record with the same value in two columns.\<close>

definition one_column :: elementaldb where
  "one_column =
     snd (table_create (ElementalDB_init False Map.empty Map.empty) ''T'' [''a''] False)"

definition single :: table where
  "single = table_after ''T'' [''a''] [AddRecords [[IntV 1]]]"

definition emptied :: table where
  "emptied = table_after ''T'' [''a''] [AddRecords [[IntV 1]], Update 1 [IntV 2]]"


text \<open>
  Records with a list as a cell: \<open>unindexed\<close> after adding one, which raises once it is
  appended; \<open>shifted\<close> after adding it, adding the record \<^verbatim>\<open>(1,)\<close> and deleting row 1,
  which raises once it is popped.
\<close>

definition unindexed :: table where
  "unindexed = table_after ''T'' [''a''] [AddRecords [[ListV []]]]"

definition shifted :: table where
  "shifted = table_after ''T'' [''a''] [AddRecords [[ListV []]], AddRecords [[IntV 1]], Delete 1]"

text \<open>An engine with authentication enabled and nobody signed in.\<close>

definition locked :: elementaldb where
  "locked = ElementalDB_init True Map.empty Map.empty"

text \<open>Calls made after a search was cached: a third record, also named Alice.\<close>

definition later_calls :: "db_call list" where
  "later_calls =
     [Add ''Users'' [[IntV 3, StrV ''Alice'', IntV 40]],
      DbUpdate ''Users'' 1 [IntV 1, StrV ''Alice'', IntV 31],
      DbDelete ''Users'' 2]"

section \<open>Lemmas\<close>

subsection \<open>Dictionaries and the index loops\<close>

lemma dict_set_keys: "fst ` set (dict_set d k v) = insert k (fst ` set d)"
  by (induction d k v rule: dict_set.induct) auto

lemma dict_set_distinct: "distinct (map fst d) \<Longrightarrow> distinct (map fst (dict_set d k v))"
  by (induction d k v rule: dict_set.induct) (auto simp: dict_set_keys)

lemma dict_of_keys: "fst ` set (dict_of d kvs) = fst ` set d \<union> fst ` set kvs"
  by (induction d kvs rule: dict_of.induct) (auto simp: dict_set_keys)

lemma dict_of_distinct: "distinct (map fst d) \<Longrightarrow> distinct (map fst (dict_of d kvs))"
  by (induction d kvs rule: dict_of.induct) (auto simp: dict_set_distinct)

lemma dict_zip_keys: "length cols = length vals \<Longrightarrow> fst ` set (dict_zip cols vals) = set cols"
proof -
  assume "length cols = length vals"
  then have "map fst (zip cols vals) = cols" by simp
  then have "fst ` set (zip cols vals) = set cols" by (metis set_map)
  then show ?thesis by (simp add: dict_zip_def dict_of_keys)
qed

lemma dict_zip_distinct: "distinct (map fst (dict_zip cols vals))"
  by (simp add: dict_zip_def dict_of_distinct)

lemma index_append_ins:
  "distinct (map fst r) \<Longrightarrow> fst ` set r \<subseteq> dom idx \<Longrightarrow> \<forall>v \<in> snd ` set r. hashable v \<Longrightarrow>
     index_append idx r p = (None, ins idx r p)"
proof (induction r arbitrary: idx)
  case Nil
  show ?case by (auto simp: ins_def split: option.splits)
next
  case (Cons a r)
  obtain col v where a: "a = (col, v)" by (cases a)
  from Cons.prems a obtain m where m: "idx col = Some m" by auto
  have hv: "hashable v" using Cons.prems(3) a by force
  let ?idx = "idx(col \<mapsto> m(v \<mapsto> (case m v of None \<Rightarrow> [] | Some b \<Rightarrow> b) @ [p]))"
  have "index_append ?idx r p = (None, ins ?idx r p)"
    using Cons.prems a by (intro Cons.IH) auto
  moreover have "ins ?idx r p = ins idx (a # r) p"
  proof
    fix c
    have "map_of r col = None" using Cons.prems a by (simp add: map_of_eq_None_iff)
    then show "ins ?idx r p c = ins idx (a # r) p c"
      using m a by (auto simp: ins_def split: option.splits)
  qed
  ultimately show ?case using m a hv by simp
qed

lemma held_upd:
  assumes "held idx r p" "col \<notin> fst ` set r"
  shows "held (idx(col \<mapsto> m')) r p"
  unfolding held_def
proof (intro ballI, clarify)
  fix c v assume cv: "(c, v) \<in> set r"
  then have "c \<noteq> col" using assms(2) by force
  moreover from assms(1) cv obtain m b
    where "hashable v" "idx c = Some m" "m v = Some b" "p \<in> set b"
    by (auto simp: held_def)
  ultimately show
    "hashable v \<and> (\<exists>m b. (idx(col \<mapsto> m')) c = Some m \<and> m v = Some b \<and> p \<in> set b)"
    by simp
qed

lemma index_remove_rem:
  "distinct (map fst r) \<Longrightarrow> held idx r p \<Longrightarrow> index_remove idx r p = (None, rem idx r p)"
proof (induction r arbitrary: idx)
  case Nil
  show ?case by (auto simp: rem_def split: option.splits)
next
  case (Cons a r)
  obtain col v where a: "a = (col, v)" by (cases a)
  from Cons.prems a obtain m b
    where m: "idx col = Some m" "m v = Some b" "p \<in> set b" "hashable v"
    by (auto simp: held_def)
  let ?idx = "idx(col \<mapsto> m(v \<mapsto> remove1 p b))"
  have notin: "col \<notin> fst ` set r" using Cons.prems a by auto
  have "held idx r p" using Cons.prems(2) by (simp add: held_def)
  then have h: "held ?idx r p" using notin by (rule held_upd)
  have d: "distinct (map fst r)" using Cons.prems(1) by simp
  have "index_remove ?idx r p = (None, rem ?idx r p)"
    by (rule Cons.IH[OF d h])
  moreover have "rem ?idx r p = rem idx (a # r) p"
  proof
    fix c
    have "map_of r col = None" using notin by (simp add: map_of_eq_None_iff)
    then show "rem ?idx r p c = rem idx (a # r) p c"
      using m a by (auto simp: rem_def split: option.splits)
  qed
  ultimately show ?case using m a by simp
qed

lemma index_remove_drop_remd:
  "distinct (map fst r) \<Longrightarrow> held idx r p \<Longrightarrow> index_remove_drop idx r p = (None, remd idx r p)"
proof (induction r arbitrary: idx)
  case Nil
  show ?case by (auto simp: remd_def split: option.splits)
next
  case (Cons a r)
  obtain col v where a: "a = (col, v)" by (cases a)
  from Cons.prems a obtain m b
    where m: "idx col = Some m" "m v = Some b" "p \<in> set b" "hashable v"
    by (auto simp: held_def)
  let ?idx = "idx(col \<mapsto> m(v := if remove1 p b = [] then None else Some (remove1 p b)))"
  have notin: "col \<notin> fst ` set r" using Cons.prems a by auto
  have "held idx r p" using Cons.prems(2) by (simp add: held_def)
  then have h: "held ?idx r p" using notin by (rule held_upd)
  have d: "distinct (map fst r)" using Cons.prems(1) by simp
  have "index_remove_drop ?idx r p = (None, remd ?idx r p)"
    by (rule Cons.IH[OF d h])
  moreover have "remd ?idx r p = remd idx (a # r) p"
  proof
    fix c
    have "map_of r col = None" using notin by (simp add: map_of_eq_None_iff)
    then show "remd ?idx r p c = remd idx (a # r) p c"
      using m a by (auto simp: remd_def split: option.splits)
  qed
  ultimately show ?case using m a by (cases "remove1 p b = []") simp_all
qed

lemma bucket_ins:
  "bucket (ins idx r p) c v =
     (if c \<in> dom idx \<and> map_of r c = Some v then bucket idx c v @ [p] else bucket idx c v)"
  by (auto simp: bucket_def ins_def split: option.splits)

lemma bucket_rem:
  "bucket (rem idx r p) c v =
     (if map_of r c = Some v then remove1 p (bucket idx c v) else bucket idx c v)"
  by (auto simp: bucket_def rem_def split: option.splits)

lemma bucket_remd:
  "bucket (remd idx r p) c v =
     (if map_of r c = Some v then remove1 p (bucket idx c v) else bucket idx c v)"
  by (auto simp: bucket_def remd_def Let_def split: option.splits)

lemma bucket_renumber:
  "bucket (renumber idx p) c v = map (\<lambda>i. if i < p then i else i - 1) (bucket idx c v)"
  by (auto simp: bucket_def renumber_def split: option.splits)

lemma dom_ins: "dom (ins idx r p) = dom idx"
  by (auto simp: ins_def split: option.splits)

lemma dom_rem: "dom (rem idx r p) = dom idx"
  by (auto simp: rem_def split: option.splits)

lemma dom_remd: "dom (remd idx r p) = dom idx"
  by (auto simp: remd_def split: option.splits)

lemma dom_renumber: "dom (renumber idx p) = dom idx"
  by (auto simp: renumber_def split: option.splits)

subsection \<open>Holders of a value under append, replace and pop\<close>

lemma holders_append:
  "holders (recs @ [r]) c v =
     holders recs c v \<union> (if map_of r c = Some v then {int (length recs)} else {})"
proof (intro set_eqI)
  fix i :: int
  consider "i < 0" | "0 \<le> i" "i < int (length recs)" | "i = int (length recs)" | "i > int (length recs)"
    by linarith
  then show "i \<in> holders (recs @ [r]) c v \<longleftrightarrow>
     i \<in> holders recs c v \<union> (if map_of r c = Some v then {int (length recs)} else {})"
  proof cases
    case 2
    then have "nat i < length recs" by linarith
    then have "(recs @ [r]) ! nat i = recs ! nat i" by (simp add: nth_append)
    then show ?thesis using 2 by (simp add: holders_def)
  qed (simp_all add: holders_def)
qed

lemma holders_update:
  assumes "n < length recs"
  shows "holders (recs[n := r]) c v =
     (holders recs c v - {int n}) \<union> (if map_of r c = Some v then {int n} else {})"
proof (intro set_eqI)
  fix i :: int
  consider "i < 0 \<or> i \<ge> int (length recs)" | "0 \<le> i" "i < int (length recs)" "i \<noteq> int n" | "i = int n"
    by linarith
  then show "i \<in> holders (recs[n := r]) c v \<longleftrightarrow>
     i \<in> (holders recs c v - {int n}) \<union> (if map_of r c = Some v then {int n} else {})"
  proof cases
    case 1
    then show ?thesis using assms by (auto simp: holders_def)
  next
    case 2
    then have "nat i \<noteq> n" by linarith
    then have "(recs[n := r]) ! nat i = recs ! nat i" by simp
    then show ?thesis using 2 by (simp add: holders_def)
  next
    case 3
    then show ?thesis using assms by (simp add: holders_def)
  qed
qed

lemma nth_pop:
  assumes "n < length recs" "i < length recs - 1"
  shows "(take n recs @ drop (Suc n) recs) ! i = (if i < n then recs ! i else recs ! Suc i)"
  using assms by (auto simp: nth_append min_def)

lemma holders_pop:
  assumes "n < length recs"
  shows "holders (take n recs @ drop (Suc n) recs) c v =
     (\<lambda>i. if i < int n then i else i - 1) ` (holders recs c v - {int n})"
proof (intro set_eqI iffI)
  fix j assume "j \<in> holders (take n recs @ drop (Suc n) recs) c v"
  then have j: "0 \<le> j" "j < int (length recs) - 1"
    and m: "map_of ((take n recs @ drop (Suc n) recs) ! nat j) c = Some v"
    using assms by (auto simp: holders_def)
  have nj: "nat j < length recs - 1" using j by linarith
  show "j \<in> (\<lambda>i. if i < int n then i else i - 1) ` (holders recs c v - {int n})"
  proof (cases "j < int n")
    case True
    then have "nat j < n" using j by linarith
    then have "map_of (recs ! nat j) c = Some v" using m nth_pop[OF assms nj] by simp
    then have "j \<in> holders recs c v - {int n}" using j True by (simp add: holders_def)
    then show ?thesis using True by force
  next
    case False
    then have "\<not> nat j < n" using j by linarith
    then have "map_of (recs ! Suc (nat j)) c = Some v" using m nth_pop[OF assms nj] by simp
    moreover have "Suc (nat j) = nat (j + 1)" using j by linarith
    ultimately have "j + 1 \<in> holders recs c v - {int n}" using j False by (simp add: holders_def)
    moreover have "j = (\<lambda>i. if i < int n then i else i - 1) (j + 1)" using False by simp
    ultimately show ?thesis by (rule rev_image_eqI)
  qed
next
  fix j assume "j \<in> (\<lambda>i. if i < int n then i else i - 1) ` (holders recs c v - {int n})"
  then obtain i where i': "i \<in> holders recs c v - {int n}"
    and ji: "j = (if i < int n then i else i - 1)" by blast
  from i' have i: "i \<in> holders recs c v" "i \<noteq> int n" by auto
  from i have i0: "0 \<le> i" "i < int (length recs)" and m: "map_of (recs ! nat i) c = Some v"
    by (auto simp: holders_def)
  show "j \<in> holders (take n recs @ drop (Suc n) recs) c v"
  proof (cases "i < int n")
    case True
    then have "nat j < n" "nat j < length recs - 1" "j = i" using ji i0 assms by auto
    then show ?thesis using nth_pop[OF assms, of "nat j"] m i0 True assms
      by (auto simp: holders_def)
  next
    case False
    then have gt: "int n < i" using i by simp
    then have j: "j = i - 1" "\<not> nat j < n" "nat j < length recs - 1" "Suc (nat j) = nat i"
      using ji i0 by auto
    then show ?thesis using nth_pop[OF assms, of "nat j"] m i0 gt assms
      by (auto simp: holders_def)
  qed
qed

subsection \<open>Every call keeps the invariant\<close>

lemma dict_set_values: "snd ` set (dict_set d k v) \<subseteq> insert v (snd ` set d)"
  by (induction d k v rule: dict_set.induct) auto

lemma dict_of_values: "snd ` set (dict_of d kvs) \<subseteq> snd ` set d \<union> snd ` set kvs"
proof (induction d kvs rule: dict_of.induct)
  case (1 d)
  show ?case by simp
next
  case (2 d k v kvs)
  then show ?case using dict_set_values[of d k v] by auto
qed

lemma dict_zip_values: "snd ` set (dict_zip cols vals) \<subseteq> set vals"
proof -
  have "snd ` set (zip cols vals) \<subseteq> set vals" by (auto dest: set_zip_rightD)
  then show ?thesis using dict_of_values[of "[]" "zip cols vals"] by (auto simp: dict_zip_def)
qed

lemma dict_zip_ok:
  assumes "length vals = length cols" "list_all hashable vals"
  shows "record_ok cols (dict_zip cols vals)"
proof -
  have "\<forall>v \<in> snd ` set (dict_zip cols vals). hashable v"
    using dict_zip_values[of cols vals] assms(2) by (auto simp: list_all_iff)
  then show ?thesis using assms(1) by (simp add: record_ok_def dict_zip_keys dict_zip_distinct)
qed

lemma inv_record_ok:
  assumes "table_inv t" "n < length (records t)"
  shows "record_ok (columns t) (records t ! n)"
  using assms by (auto simp: table_inv_def dest!: nth_mem)

lemma inv_record_keys:
  assumes "table_inv t" "n < length (records t)"
  shows "distinct (map fst (records t ! n))" "fst ` set (records t ! n) = set (columns t)"
  using inv_record_ok[OF assms] by (simp_all add: record_ok_def)

lemma inv_held:
  assumes "table_inv t" "n < length (records t)"
  shows "held (indexed_data t) (records t ! n) (int n)"
  unfolding held_def
proof (intro ballI, clarify)
  fix c v assume cv: "(c, v) \<in> set (records t ! n)"
  have d: "distinct (map fst (records t ! n))" by (rule inv_record_keys[OF assms])
  from cv d have mo: "map_of (records t ! n) c = Some v" by simp
  from cv have "c \<in> fst ` set (records t ! n)" by force
  then have c: "c \<in> set (columns t)" using inv_record_keys(2)[OF assms] by simp
  from cv have "v \<in> snd ` set (records t ! n)" by force
  then have hv: "hashable v" using inv_record_ok[OF assms] by (auto simp: record_ok_def)
  have "int n \<in> holders (records t) c v" using assms(2) mo by (simp add: holders_def)
  then have mem: "int n \<in> set (bucket (indexed_data t) c v)"
    using assms(1) c by (simp add: table_inv_def)
  then have "\<exists>m b. indexed_data t c = Some m \<and> m v = Some b \<and> int n \<in> set b"
    by (cases "indexed_data t c"; cases "the (indexed_data t c) v") (auto simp: bucket_def)
  then show "hashable v \<and> (\<exists>m b. indexed_data t c = Some m \<and> m v = Some b \<and> int n \<in> set b)"
    using hv by simp
qed

lemma append_record:
  assumes "table_inv t" "record_ok (columns t) rd"
  shows "index_append (indexed_data t) rd (int (length (records t))) =
           (None, ins (indexed_data t) rd (int (length (records t))))"
    and "table_inv (t\<lparr>records := records t @ [rd],
                      indexed_data := ins (indexed_data t) rd (int (length (records t)))\<rparr>)"
proof -
  have keys: "fst ` set rd = set (columns t)" and dist: "distinct (map fst rd)"
    and hash: "\<forall>v \<in> snd ` set rd. hashable v"
    using assms(2) by (simp_all add: record_ok_def)
  have dom: "dom (indexed_data t) = set (columns t)" using assms(1) by (simp add: table_inv_def)
  show "index_append (indexed_data t) rd (int (length (records t))) =
           (None, ins (indexed_data t) rd (int (length (records t))))"
    by (rule index_append_ins[OF dist _ hash]) (simp add: keys dom)
  have b: "\<And>c v. c \<in> set (columns t) \<Longrightarrow>
      distinct (bucket (indexed_data t) c v) \<and>
      set (bucket (indexed_data t) c v) = holders (records t) c v"
    using assms(1) by (simp add: table_inv_def)
  have notin: "\<And>c v. int (length (records t)) \<notin> holders (records t) c v"
    by (simp add: holders_def)
  show "table_inv (t\<lparr>records := records t @ [rd],
                      indexed_data := ins (indexed_data t) rd (int (length (records t)))\<rparr>)"
    unfolding table_inv_def
  proof (intro conjI ballI allI)
    fix c v assume "c \<in> set (columns (t\<lparr>records := records t @ [rd],
                      indexed_data := ins (indexed_data t) rd (int (length (records t)))\<rparr>))"
    then have c: "c \<in> set (columns t)" by simp
    show "distinct (bucket (indexed_data (t\<lparr>records := records t @ [rd],
                      indexed_data := ins (indexed_data t) rd (int (length (records t)))\<rparr>)) c v)"
      using b[OF c, of v] notin[of c v] c dom by (auto simp: bucket_ins)
    show "set (bucket (indexed_data (t\<lparr>records := records t @ [rd],
                      indexed_data := ins (indexed_data t) rd (int (length (records t)))\<rparr>)) c v) =
          holders (records (t\<lparr>records := records t @ [rd],
                      indexed_data := ins (indexed_data t) rd (int (length (records t)))\<rparr>)) c v"
      using b[OF c, of v] c dom by (auto simp: bucket_ins holders_append)
  next
    fix r' assume "r' \<in> set (records (t\<lparr>records := records t @ [rd],
                      indexed_data := ins (indexed_data t) rd (int (length (records t)))\<rparr>))"
    then have "r' = rd \<or> r' \<in> set (records t)" by auto
    then have "record_ok (columns t) r'"
      using assms unfolding table_inv_def by blast
    then show "record_ok (columns (t\<lparr>records := records t @ [rd],
                      indexed_data := ins (indexed_data t) rd (int (length (records t)))\<rparr>)) r'"
      by simp
  qed (simp add: dom_ins dom)
qed

lemma add_one:
  assumes "table_inv t" "length r = length (columns t)" "list_all hashable r"
  shows "index_append (indexed_data t) (dict_zip (columns t) r) (int (length (records t))) =
           (None, ins (indexed_data t) (dict_zip (columns t) r) (int (length (records t))))"
    and "table_inv (t\<lparr>records := records t @ [dict_zip (columns t) r],
           indexed_data := ins (indexed_data t) (dict_zip (columns t) r) (int (length (records t)))\<rparr>)"
proof -
  have k: "record_ok (columns t) (dict_zip (columns t) r)"
    by (rule dict_zip_ok[OF assms(2,3)])
  show "index_append (indexed_data t) (dict_zip (columns t) r) (int (length (records t))) =
           (None, ins (indexed_data t) (dict_zip (columns t) r) (int (length (records t))))"
    by (rule append_record(1)[OF assms(1) k])
  show "table_inv (t\<lparr>records := records t @ [dict_zip (columns t) r],
           indexed_data := ins (indexed_data t) (dict_zip (columns t) r) (int (length (records t)))\<rparr>)"
    by (rule append_record(2)[OF assms(1) k])
qed

lemma add_records_inv:
  "table_inv t \<Longrightarrow> list_all (list_all hashable) rs \<Longrightarrow> table_inv (snd (Table_add_records t rs))"
proof (induction rs arbitrary: t)
  case Nil
  then show ?case by simp
next
  case (Cons r rs)
  show ?case
  proof (cases "length r = length (columns t)")
    case False
    then show ?thesis using Cons.prems by simp
  next
    case True
    let ?rd = "dict_zip (columns t) r"
    let ?t = "t\<lparr>records := records t @ [?rd],
                indexed_data := ins (indexed_data t) ?rd (int (length (records t)))\<rparr>"
    have h: "list_all hashable r" "list_all (list_all hashable) rs" using Cons.prems(2) by simp_all
    have "Table_add_records t (r # rs) = Table_add_records ?t rs"
      using True add_one(1)[OF Cons.prems(1) True h(1)] by (simp add: Let_def)
    moreover have "table_inv ?t" by (rule add_one(2)[OF Cons.prems(1) True h(1)])
    ultimately show ?thesis using Cons.IH h(2) by simp
  qed
qed

lemma update_ok:
  assumes "table_inv t" "1 \<le> row_number" "row_number \<le> int (length (records t))"
    "length data = length (columns t)" "list_all hashable data"
  defines "p \<equiv> row_number - 1"
  defines "t' \<equiv> t\<lparr>records := (records t)[nat p := dict_zip (columns t) data],
     indexed_data := ins (rem (indexed_data t) (records t ! nat p) p) (dict_zip (columns t) data) p\<rparr>"
  shows "Table_update t row_number data = (None, t')" and "table_inv t'"
proof -
  let ?old = "records t ! nat p" and ?new = "dict_zip (columns t) data"
  have n: "nat p < length (records t)" and pn: "p = int (nat p)"
    using assms(2,3) by (auto simp: p_def)
  have nok: "record_ok (columns t) ?new" by (rule dict_zip_ok[OF assms(4,5)])
  have keys: "fst ` set ?new = set (columns t)" and dist: "distinct (map fst ?new)"
    and hash: "\<forall>v \<in> snd ` set ?new. hashable v"
    using nok by (simp_all add: record_ok_def)
  have dom: "dom (indexed_data t) = set (columns t)" using assms(1) by (simp add: table_inv_def)
  have okeys: "distinct (map fst ?old)" "fst ` set ?old = set (columns t)"
    using inv_record_keys[OF assms(1) n] by auto
  have held: "held (indexed_data t) ?old p" using inv_held[OF assms(1) n] pn by simp
  have r1: "index_remove (indexed_data t) ?old p = (None, rem (indexed_data t) ?old p)"
    by (rule index_remove_rem[OF okeys(1) held])
  have r2: "index_append (rem (indexed_data t) ?old p) ?new p =
     (None, ins (rem (indexed_data t) ?old p) ?new p)"
    by (rule index_append_ins[OF dist _ hash]) (simp add: keys dom dom_rem)
  show "Table_update t row_number data = (None, t')"
    using assms(2-4) r1 r2 by (simp add: Table_update_def Let_def t'_def p_def)
  have b: "\<And>c v. c \<in> set (columns t) \<Longrightarrow>
      distinct (bucket (indexed_data t) c v) \<and>
      set (bucket (indexed_data t) c v) = holders (records t) c v"
    using assms(1) by (simp add: table_inv_def)
  have omap: "\<And>c v. c \<in> set (columns t) \<Longrightarrow> p \<in> holders (records t) c v \<longleftrightarrow> map_of ?old c = Some v"
    using n pn assms(2,3) by (auto simp: holders_def p_def)
  show "table_inv t'"
    unfolding table_inv_def
  proof (intro conjI ballI allI)
    fix c v assume "c \<in> set (columns t')"
    then have c: "c \<in> set (columns t)" by (simp add: t'_def)
    have cd: "c \<in> dom (rem (indexed_data t) ?old p)" using c dom by (simp add: dom_rem)
    show "distinct (bucket (indexed_data t') c v)"
      using b[OF c, of v] cd omap[OF c, of v] by (auto simp: t'_def bucket_ins bucket_rem)
    have "holders (records t') c v =
       (holders (records t) c v - {p}) \<union> (if map_of ?new c = Some v then {p} else {})"
      using holders_update[OF n, of ?new c v] pn by (simp add: t'_def)
    then show "set (bucket (indexed_data t') c v) = holders (records t') c v"
      using b[OF c, of v] cd omap[OF c, of v]
      by (auto simp: t'_def bucket_ins bucket_rem)
  next
    fix r assume "r \<in> set (records t')"
    then have "r = ?new \<or> r \<in> set (records t)"
      by (auto simp: t'_def dest: set_update_subset_insert[THEN subsetD])
    then have "record_ok (columns t) r"
      using assms(1) nok unfolding table_inv_def by blast
    then show "record_ok (columns t') r" by (simp add: t'_def)
  qed (simp add: t'_def dom_ins dom_rem dom)
qed

lemma delete_ok:
  assumes "table_inv t" "1 \<le> row_number" "row_number \<le> int (length (records t))"
  defines "p \<equiv> row_number - 1"
  defines "t' \<equiv> t\<lparr>records := take (nat p) (records t) @ drop (Suc (nat p)) (records t),
     indexed_data := renumber (remd (indexed_data t) (records t ! nat p) p) p\<rparr>"
  shows "Table_delete t row_number = (None, t')" and "table_inv t'"
proof -
  let ?old = "records t ! nat p"
  have n: "nat p < length (records t)" and pn: "p = int (nat p)"
    using assms(2,3) by (auto simp: p_def)
  have dom: "dom (indexed_data t) = set (columns t)" using assms(1) by (simp add: table_inv_def)
  have okeys: "distinct (map fst ?old)" "fst ` set ?old = set (columns t)"
    using inv_record_keys[OF assms(1) n] by auto
  have held: "held (indexed_data t) ?old p" using inv_held[OF assms(1) n] pn by simp
  have r1: "index_remove_drop (indexed_data t) ?old p = (None, remd (indexed_data t) ?old p)"
    by (rule index_remove_drop_remd[OF okeys(1) held])
  show "Table_delete t row_number = (None, t')"
    using assms(2,3) r1 by (simp add: Table_delete_def Let_def t'_def p_def)
  have b: "\<And>c v. c \<in> set (columns t) \<Longrightarrow>
      distinct (bucket (indexed_data t) c v) \<and>
      set (bucket (indexed_data t) c v) = holders (records t) c v"
    using assms(1) by (simp add: table_inv_def)
  have omap: "\<And>c v. p \<in> holders (records t) c v \<longleftrightarrow> map_of ?old c = Some v"
    using n pn assms(2,3) by (auto simp: holders_def p_def)
  show "table_inv t'"
    unfolding table_inv_def
  proof (intro conjI ballI allI)
    fix c v assume "c \<in> set (columns t')"
    then have c: "c \<in> set (columns t)" by (simp add: t'_def)
    let ?b = "bucket (remd (indexed_data t) ?old p) c v"
    have sb: "set ?b = holders (records t) c v - {p}" and db: "distinct ?b"
      using b[OF c, of v] omap[of c v] by (auto simp: bucket_remd)
    have inj: "inj_on (\<lambda>i. if i < p then i else i - 1) (set ?b)"
      unfolding sb by (rule inj_onI) (auto split: if_splits)
    show "distinct (bucket (indexed_data t') c v)"
      using db inj by (simp add: t'_def bucket_renumber distinct_map)
    have "holders (records t') c v = (\<lambda>i. if i < p then i else i - 1) ` (holders (records t) c v - {p})"
      using holders_pop[OF n, of c v] pn by (simp add: t'_def)
    then show "set (bucket (indexed_data t') c v) = holders (records t') c v"
      using sb by (simp add: t'_def bucket_renumber)
  next
    fix r assume "r \<in> set (records t')"
    then have "r \<in> set (records t)"
      by (auto simp: t'_def dest: in_set_takeD in_set_dropD)
    then have "record_ok (columns t) r"
      using assms(1) unfolding table_inv_def by blast
    then show "record_ok (columns t') r" by (simp add: t'_def)
  qed (simp add: t'_def dom_renumber dom_remd dom)
qed

lemma update_inv:
  "table_inv t \<Longrightarrow> list_all hashable data \<Longrightarrow> table_inv (snd (Table_update t row_number data))"
proof -
  assume inv: "table_inv t" and h: "list_all hashable data"
  show ?thesis
  proof (cases "1 \<le> row_number \<and> row_number \<le> int (length (records t)) \<and> length data = length (columns t)")
    case True
    then show ?thesis using update_ok[OF inv _ _ _ h, of row_number] by simp
  next
    case False
    then have "snd (Table_update t row_number data) = t"
      by (auto simp: Table_update_def)
    then show ?thesis using inv by simp
  qed
qed

lemma delete_inv: "table_inv t \<Longrightarrow> table_inv (snd (Table_delete t row_number))"
proof -
  assume inv: "table_inv t"
  show ?thesis
  proof (cases "1 \<le> row_number \<and> row_number \<le> int (length (records t))")
    case True
    then show ?thesis using delete_ok[OF inv, of row_number] by simp
  next
    case False
    then have "snd (Table_delete t row_number) = t"
      by (auto simp: Table_delete_def)
    then show ?thesis using inv by simp
  qed
qed

lemma init_inv: "table_inv (Table_init nm cols)"
  by (auto simp: table_inv_def Table_init_def bucket_def holders_def split: if_splits)

lemma step_inv: "table_inv t \<Longrightarrow> call_hashable call \<Longrightarrow> table_inv (table_step t call)"
  by (cases call) (simp_all add: add_records_inv update_inv delete_inv)

lemma foldl_step_inv:
  "table_inv t \<Longrightarrow> list_all call_hashable calls \<Longrightarrow> table_inv (foldl table_step t calls)"
  by (induction calls arbitrary: t) (simp_all add: step_inv)

lemma table_after_inv: "calls_hashable calls \<Longrightarrow> table_inv (table_after nm cols calls)"
  by (simp add: table_after_def calls_hashable_def foldl_step_inv init_inv)

subsection \<open>Consequences of the invariant\<close>

lemma bucket_Some: "idx c = Some m \<Longrightarrow> m v = Some b \<Longrightarrow> bucket idx c v = b"
  by (simp add: bucket_def)

lemma inv_consistent:
  assumes "table_inv t"
  shows "index_consistent t"
  unfolding index_consistent_def
proof (intro ballI allI impI)
  fix c p assume c: "c \<in> set (columns t)" and p: "p < length (records t)"
  have "c \<in> fst ` set (records t ! p)" using inv_record_keys(2)[OF assms p] c by simp
  then obtain v where cv: "(c, v) \<in> set (records t ! p)" by force
  then have mo: "map_of (records t ! p) c = Some v"
    using inv_record_keys(1)[OF assms p] by simp
  from inv_held[OF assms p] cv obtain m b where
    mb: "indexed_data t c = Some m" "m v = Some b" "int p \<in> set b"
    by (auto simp: held_def)
  have other: "int p \<notin> set b'" if "m v' = Some b'" "v' \<noteq> v" for v' b'
  proof
    assume "int p \<in> set b'"
    then have "int p \<in> set (bucket (indexed_data t) c v')"
      using mb(1) that(1) by (simp add: bucket_def)
    then have "int p \<in> holders (records t) c v'" using assms c by (simp add: table_inv_def)
    then show False using mo that(2) by (simp add: holders_def)
  qed
  show "\<exists>v m b. map_of (records t ! p) c = Some v \<and> indexed_data t c = Some m \<and>
          m v = Some b \<and> int p \<in> set b \<and>
          (\<forall>v' b'. m v' = Some b' \<longrightarrow> v' \<noteq> v \<longrightarrow> int p \<notin> set b')"
    using mo mb other by blast
qed

lemma inv_no_stale:
  assumes "table_inv t"
  shows "no_stale t"
  unfolding no_stale_def
proof (intro allI impI)
  fix c m v b i
  assume a: "indexed_data t c = Some m" "m v = Some b" "i \<in> set b"
  have "c \<in> set (columns t)" using assms a(1) by (auto simp: table_inv_def)
  then have "set (bucket (indexed_data t) c v) = holders (records t) c v"
    using assms by (simp add: table_inv_def)
  then have "i \<in> holders (records t) c v" using a by (simp add: bucket_def)
  then show "0 \<le> i \<and> i < int (length (records t)) \<and> map_of (records t ! nat i) c = Some v"
    by (simp add: holders_def)
qed

lemma users_eval:
  "users = \<lparr>name = ''Users'', columns = [''id'', ''name'', ''age''],
     records = [[(''id'', IntV 1), (''name'', StrV ''Alice''), (''age'', IntV 30)],
                [(''id'', IntV 2), (''name'', StrV ''Bob''), (''age'', IntV 25)]],
     indexed_data = (\<lambda>c. if c \<in> set [''id'', ''name'', ''age''] then Some Map.empty else None)
       (''id'' \<mapsto> [IntV 1 \<mapsto> [0], IntV 2 \<mapsto> [1]],
        ''name'' \<mapsto> [StrV ''Alice'' \<mapsto> [0], StrV ''Bob'' \<mapsto> [1]],
        ''age'' \<mapsto> [IntV 30 \<mapsto> [0], IntV 25 \<mapsto> [1]])\<rparr>"
  by (simp add: users_def table_after_def Table_init_def dict_zip_def Let_def)


lemma fetch_in_range:
  "\<forall>i \<in> set is. 0 \<le> i \<and> i < int (length recs) \<Longrightarrow>
     fetch recs is = Inr (map (\<lambda>i. recs ! nat i) is)"
  by (induction "is") (auto simp: py_index_def Let_def)

lemma bucket_memD:
  "i \<in> set (bucket idx c v) \<Longrightarrow> \<exists>m b. idx c = Some m \<and> m v = Some b \<and> i \<in> set b"
  by (cases "idx c"; cases "the (idx c) v") (auto simp: bucket_def)

lemma inv_bucket_range:
  assumes "table_inv t" "i \<in> set (bucket (indexed_data t) c v)"
  shows "0 \<le> i \<and> i < int (length (records t)) \<and> map_of (records t ! nat i) c = Some v"
proof -
  from bucket_memD[OF assms(2)] obtain m b
    where "indexed_data t c = Some m" "m v = Some b" "i \<in> set b" by blast
  then show ?thesis using inv_no_stale[OF assms(1)] unfolding no_stale_def by blast
qed

lemma inv_search:
  assumes "table_inv t" "hashable v"
  shows "Table_search t v cs =
     Inr (concat (map (\<lambda>c. map (\<lambda>i. records t ! nat i) (bucket (indexed_data t) c v)) cs))"
proof (induction cs)
  case Nil
  show ?case by (simp add: Table_search.simps)
next
  case (Cons c cs)
  have "\<forall>i \<in> set (bucket (indexed_data t) c v). 0 \<le> i \<and> i < int (length (records t))"
    using inv_bucket_range[OF assms(1)] by blast
  then have "fetch (records t) (bucket (indexed_data t) c v) =
      Inr (map (\<lambda>i. records t ! nat i) (bucket (indexed_data t) c v))"
    by (rule fetch_in_range)
  then show ?case using Cons.IH assms(2) by (simp add: Table_search.simps bucket_get_def)
qed

lemma search_unhashable:
  "\<not> hashable v \<Longrightarrow> Table_search t v (c # cs) = Inl TypeError"
  by (simp add: Table_search.simps bucket_get_def)


lemma inv_bucket_absent:
  assumes "table_inv t" "c \<notin> set (columns t)"
  shows "bucket (indexed_data t) c v = []"
proof -
  have "indexed_data t c = None" using assms by (auto simp: table_inv_def)
  then show ?thesis by (simp add: bucket_def)
qed

lemma inv_record_absent:
  assumes "table_inv t" "c \<notin> set (columns t)" "n < length (records t)"
  shows "map_of (records t ! n) c = None"
  using inv_record_keys(2)[OF assms(1,3)] assms(2) by (simp add: map_of_eq_None_iff)



lemma index_append_keeps_keys:
  assumes "index_append idx r p = (e, idx')" "idx c = Some m"
  shows "\<exists>m'. idx' c = Some m' \<and> dom m \<subseteq> dom m'"
  using assms
proof (induction r arbitrary: idx m)
  case Nil
  then show ?case by auto
next
  case (Cons a r)
  obtain col vl where a: "a = (col, vl)" by (cases a)
  show ?case
  proof (cases "idx col")
    case None
    then show ?thesis using Cons.prems a by auto
  next
    case (Some mc)
    show ?thesis
    proof (cases "hashable vl")
      case False
      then show ?thesis using Cons.prems a Some by auto
    next
      case True
      let ?idx = "idx(col \<mapsto> mc(vl \<mapsto> (case mc vl of None \<Rightarrow> [] | Some b \<Rightarrow> b) @ [p]))"
      have run: "index_append ?idx r p = (e, idx')" using Cons.prems(1) a Some True by simp
      obtain m1 where m1: "?idx c = Some m1" "dom m \<subseteq> dom m1"
        using Cons.prems(2) Some by (cases "c = col") auto
      from Cons.IH[OF run m1(1)] obtain m' where "idx' c = Some m'" "dom m1 \<subseteq> dom m'" by blast
      then show ?thesis using m1(2) by blast
    qed
  qed
qed

lemma index_remove_keeps_keys:
  assumes "index_remove idx r p = (e, idx')" "idx c = Some m"
  shows "\<exists>m'. idx' c = Some m' \<and> dom m \<subseteq> dom m'"
  using assms
proof (induction r arbitrary: idx m)
  case Nil
  then show ?case by auto
next
  case (Cons a r)
  obtain col vl where a: "a = (col, vl)" by (cases a)
  show ?case
  proof (cases "idx col")
    case None
    then show ?thesis using Cons.prems a by auto
  next
    case (Some mc)
    show ?thesis
    proof (cases "hashable vl \<and> (\<exists>b. mc vl = Some b \<and> p \<in> set b)")
      case False
      then have "idx' = idx" using Cons.prems(1) a Some by (auto split: option.splits if_splits)
      then show ?thesis using Cons.prems(2) by auto
    next
      case True
      then obtain b where b: "mc vl = Some b" "p \<in> set b" "hashable vl" by blast
      let ?idx = "idx(col \<mapsto> mc(vl \<mapsto> remove1 p b))"
      have run: "index_remove ?idx r p = (e, idx')" using Cons.prems(1) a Some b by simp
      obtain m1 where m1: "?idx c = Some m1" "dom m \<subseteq> dom m1"
        using Cons.prems(2) Some by (cases "c = col") auto
      from Cons.IH[OF run m1(1)] obtain m' where "idx' c = Some m'" "dom m1 \<subseteq> dom m'" by blast
      then show ?thesis using m1(2) by blast
    qed
  qed
qed

lemma update_keeps_keys:
  assumes "indexed_data t c = Some m"
  shows "\<exists>m'. indexed_data (snd (Table_update t row_number data)) c = Some m' \<and> dom m \<subseteq> dom m'"
proof (cases "1 \<le> row_number \<and> row_number \<le> int (length (records t)) \<and> length data = length (columns t)")
  case True
  let ?p = "row_number - 1"
  obtain e1 idx1 where r1: "index_remove (indexed_data t) (records t ! nat ?p) ?p = (e1, idx1)"
    by (cases "index_remove (indexed_data t) (records t ! nat ?p) ?p")
  obtain e2 idx2 where r2: "index_append idx1 (dict_zip (columns t) data) ?p = (e2, idx2)"
    by (cases "index_append idx1 (dict_zip (columns t) data) ?p")
  from index_remove_keeps_keys[OF r1 assms] obtain m1
    where m1: "idx1 c = Some m1" "dom m \<subseteq> dom m1" by blast
  from index_append_keeps_keys[OF r2 m1(1)] obtain m2
    where m2: "idx2 c = Some m2" "dom m1 \<subseteq> dom m2" by blast
  have "indexed_data (snd (Table_update t row_number data)) = (if e1 = None then idx2 else idx1)"
    using True r1 r2 by (auto simp: Table_update_def Let_def split: option.splits)
  then show ?thesis using m1 m2 by auto
next
  case False
  then have "snd (Table_update t row_number data) = t" by (auto simp: Table_update_def)
  then show ?thesis using assms by simp
qed

lemma sole_holder_bucket:
  assumes "table_inv t" "n < length (records t)" "map_of (records t ! n) c = Some v"
    "\<forall>q < length (records t). q \<noteq> n \<longrightarrow> map_of (records t ! q) c \<noteq> Some v"
  shows "\<exists>m. indexed_data t c = Some m \<and> m v = Some [int n]"
proof -
  have "(c, v) \<in> set (records t ! n)" using assms(3) by (rule map_of_SomeD)
  then obtain m b where mb: "indexed_data t c = Some m" "m v = Some b" "int n \<in> set b"
    using inv_held[OF assms(1,2)] by (auto simp: held_def)
  then have c: "c \<in> set (columns t)" using assms(1) by (auto simp: table_inv_def)
  have b: "bucket (indexed_data t) c v = b" using mb by (simp add: bucket_def)
  have d: "distinct b" and s: "set b = holders (records t) c v"
    using assms(1) c b by (auto simp: table_inv_def)
  have "holders (records t) c v = {int n}"
  proof (intro set_eqI iffI)
    fix i assume i: "i \<in> holders (records t) c v"
    then have "nat i < length (records t)" "map_of (records t ! nat i) c = Some v" "0 \<le> i"
      by (auto simp: holders_def)
    then have "nat i = n" using assms(4) by blast
    then show "i \<in> {int n}" using \<open>0 \<le> i\<close> by auto
  next
    fix i assume "i \<in> {int n}"
    then show "i \<in> holders (records t) c v" using assms(2,3) by (simp add: holders_def)
  qed
  then have "set b = {int n}" using s by simp
  then have "b = [int n]" using d
    by (metis distinct.simps(2) empty_iff insert_iff list.exhaust list.simps(15) set_empty)
  then show ?thesis using mb by simp
qed


lemma update_empties_bucket:
  assumes "table_inv t" "1 \<le> row_number" "row_number \<le> int (length (records t))"
    "length data = length (columns t)"
    "map_of (records t ! nat (row_number - 1)) c = Some v"
    "\<forall>q < length (records t). q \<noteq> nat (row_number - 1) \<longrightarrow> map_of (records t ! q) c \<noteq> Some v"
    "map_of (dict_zip (columns t) data) c \<noteq> Some v" "list_all hashable data"
  shows "\<exists>m'. indexed_data (snd (Table_update t row_number data)) c = Some m' \<and> m' v = Some []"
proof -
  let ?p = "row_number - 1"
  have n: "nat ?p < length (records t)" and pn: "int (nat ?p) = ?p" using assms(2,3) by auto
  from sole_holder_bucket[OF assms(1) n assms(5,6)] obtain m
    where m: "indexed_data t c = Some m" "m v = Some [?p]" using pn by auto
  have "indexed_data (snd (Table_update t row_number data)) c =
          ins (rem (indexed_data t) (records t ! nat ?p) ?p) (dict_zip (columns t) data) ?p c"
    using update_ok(1)[OF assms(1-4) assms(8)] by simp
  then show ?thesis
    using m assms(5,7) by (auto simp: ins_def rem_def split: option.splits)
qed

lemma remove1_empty_iff: "p \<in> set b \<Longrightarrow> remove1 p b = [] \<longleftrightarrow> b = [p]"
  by (cases b) (auto split: if_splits)

lemma renumber_keys:
  "idx c = Some m \<Longrightarrow> \<exists>m'. renumber idx p c = Some m' \<and> dom m' = dom m"
  by (auto simp: renumber_def dom_def split: option.splits)

lemma delete_drops_keys:
  assumes "table_inv t" "1 \<le> k" "k \<le> int (length (records t))" "indexed_data t c = Some m"
  shows "\<exists>m'. indexed_data (snd (Table_delete t k)) c = Some m' \<and>
     dom m' = dom m - {v. map_of (records t ! nat (k - 1)) c = Some v \<and> m v = Some [k - 1]}"
proof -
  let ?p = "k - 1"
  let ?old = "records t ! nat ?p"
  have n: "nat ?p < length (records t)" and pn: "int (nat ?p) = ?p" using assms(2,3) by auto
  have idx': "indexed_data (snd (Table_delete t k)) c = renumber (remd (indexed_data t) ?old ?p) ?p c"
    using delete_ok(1)[OF assms(1-3)] by simp
  show ?thesis
  proof (cases "map_of ?old c")
    case None
    then have "remd (indexed_data t) ?old ?p c = Some m" using assms(4) by (simp add: remd_def)
    then show ?thesis
      using idx' None renumber_keys[of "remd (indexed_data t) ?old ?p" c m ?p] by auto
  next
    case (Some v)
    then have "(c, v) \<in> set ?old" by (rule map_of_SomeD)
    then obtain m0 b where "indexed_data t c = Some m0" "m0 v = Some b" "?p \<in> set b"
      using inv_held[OF assms(1) n] pn by (auto simp: held_def)
    then have b: "m v = Some b" "?p \<in> set b" using assms(4) by auto
    have "remd (indexed_data t) ?old ?p c =
        Some (m(v := if remove1 ?p b = [] then None else Some (remove1 ?p b)))"
      using assms(4) Some b by (simp add: remd_def)
    then have "\<exists>m'. indexed_data (snd (Table_delete t k)) c = Some m' \<and>
        dom m' = dom (m(v := if remove1 ?p b = [] then None else Some (remove1 ?p b)))"
      using idx' renumber_keys[of "remd (indexed_data t) ?old ?p" c
          "m(v := if remove1 ?p b = [] then None else Some (remove1 ?p b))" ?p]
      by simp
    moreover have "dom (m(v := if remove1 ?p b = [] then None else Some (remove1 ?p b))) =
        dom m - {v'. map_of ?old c = Some v' \<and> m v' = Some [?p]}"
      using Some b remove1_empty_iff[OF b(2)] by (auto split: if_splits)
    ultimately show ?thesis by simp
  qed
qed

subsection \<open>Decoding a snapshot, and batches with a bad record\<close>

lemma rebuild_inv:
  assumes "table_inv t" "\<forall>r \<in> set rs. record_ok (columns t) r"
  shows "\<exists>idx'. index_rebuild (indexed_data t) (enumerate (length (records t)) rs) = (None, idx') \<and>
           table_inv (t\<lparr>records := records t @ rs, indexed_data := idx'\<rparr>)"
  using assms
proof (induction rs arbitrary: t)
  case Nil
  then show ?case by simp
next
  case (Cons r rs)
  let ?t1 = "t\<lparr>records := records t @ [r],
               indexed_data := ins (indexed_data t) r (int (length (records t)))\<rparr>"
  have k: "record_ok (columns t) r" using Cons.prems(2) by simp
  have a: "index_append (indexed_data t) r (int (length (records t))) = (None, indexed_data ?t1)"
    using append_record(1)[OF Cons.prems(1) k] by simp
  have inv1: "table_inv ?t1" by (rule append_record(2)[OF Cons.prems(1) k])
  have "\<forall>r' \<in> set rs. record_ok (columns ?t1) r'"
    using Cons.prems(2) by simp
  from Cons.IH[OF inv1 this] obtain idx' where
    r: "index_rebuild (indexed_data ?t1) (enumerate (length (records ?t1)) rs) = (None, idx')"
    and i: "table_inv (?t1\<lparr>records := records ?t1 @ rs, indexed_data := idx'\<rparr>)" by blast
  have "index_rebuild (indexed_data t) (enumerate (length (records t)) (r # rs)) = (None, idx')"
    using a r by simp
  moreover have "table_inv (t\<lparr>records := records t @ r # rs, indexed_data := idx'\<rparr>)"
    using i by simp
  ultimately show ?case by blast
qed

lemma roundtrip:
  assumes "table_inv t"
  shows "\<exists>t2. Table_from_dict t0 (Table_to_dict t) = (None, t2) \<and> table_inv t2 \<and>
     columns t2 = columns t \<and> records t2 = records t \<and>
     (\<forall>c v. set (bucket (indexed_data t2) c v) = set (bucket (indexed_data t) c v))"
proof -
  let ?idx0 = "\<lambda>c. if c \<in> set (columns t) then Some Map.empty else None"
  let ?tz = "t0\<lparr>columns := columns t, records := [], indexed_data := ?idx0\<rparr>"
  have invz: "table_inv ?tz"
    by (auto simp: table_inv_def bucket_def holders_def split: if_splits)
  have "\<forall>r \<in> set (records t). record_ok (columns ?tz) r"
    using assms by (simp add: table_inv_def)
  from rebuild_inv[OF invz this] obtain idx' where
    r: "index_rebuild ?idx0 (enumerate 0 (records t)) = (None, idx')"
    and i: "table_inv (?tz\<lparr>records := records t, indexed_data := idx'\<rparr>)" by auto
  let ?t2 = "t0\<lparr>columns := columns t, records := records t, indexed_data := idx'\<rparr>"
  have f: "Table_from_dict t0 (Table_to_dict t) = (None, ?t2)"
    using r by (simp add: Table_from_dict_def Table_to_dict_def Let_def)
  have inv2: "table_inv ?t2" using i by simp
  have "set (bucket (indexed_data ?t2) c v) = set (bucket (indexed_data t) c v)" for c v
  proof (cases "c \<in> set (columns t)")
    case True
    then show ?thesis using inv2 assms by (simp add: table_inv_def)
  next
    case False
    then show ?thesis using inv_bucket_absent[OF inv2, of c v] inv_bucket_absent[OF assms, of c v]
      by simp
  qed
  then show ?thesis using f inv2 by simp
qed

lemma index_append_nonempty:
  assumes "index_append idx r p = (e, idx')" "\<forall>c m v. idx c = Some m \<longrightarrow> m v \<noteq> Some []"
  shows "\<forall>c m v. idx' c = Some m \<longrightarrow> m v \<noteq> Some []"
  using assms
proof (induction r arbitrary: idx)
  case Nil
  then show ?case by simp
next
  case (Cons a r)
  obtain col vl where a: "a = (col, vl)" by (cases a)
  show ?case
  proof (cases "idx col")
    case None
    then show ?thesis using Cons.prems a by simp
  next
    case (Some m)
    show ?thesis
    proof (cases "hashable vl")
      case False
      then show ?thesis using Cons.prems a Some by simp
    next
      case True
      let ?idx = "idx(col \<mapsto> m(vl \<mapsto> (case m vl of None \<Rightarrow> [] | Some b \<Rightarrow> b) @ [p]))"
      have "index_append ?idx r p = (e, idx')" using Cons.prems(1) a Some True by simp
      moreover have "\<forall>c m v. ?idx c = Some m \<longrightarrow> m v \<noteq> Some []"
        using Cons.prems(2) Some by (auto split: if_splits)
      ultimately show ?thesis by (rule Cons.IH)
    qed
  qed
qed

lemma index_rebuild_nonempty:
  assumes "index_rebuild idx irs = (e, idx')" "\<forall>c m v. idx c = Some m \<longrightarrow> m v \<noteq> Some []"
  shows "\<forall>c m v. idx' c = Some m \<longrightarrow> m v \<noteq> Some []"
  using assms
proof (induction irs arbitrary: idx)
  case Nil
  then show ?case by simp
next
  case (Cons a irs)
  obtain i r where a: "a = (i, r)" by (cases a)
  obtain e1 idx1 where s: "index_append idx r (int i) = (e1, idx1)" by (cases "index_append idx r (int i)")
  have n1: "\<forall>c m v. idx1 c = Some m \<longrightarrow> m v \<noteq> Some []"
    by (rule index_append_nonempty[OF s Cons.prems(2)])
  show ?case
  proof (cases e1)
    case None
    then have "index_rebuild idx1 irs = (e, idx')" using Cons.prems(1) a s by simp
    then show ?thesis using n1 by (rule Cons.IH)
  next
    case (Some err)
    then have "idx' = idx1" using Cons.prems(1) a s by simp
    then show ?thesis using n1 by simp
  qed
qed

lemma from_dict_nonempty:
  assumes "Table_from_dict t0 d = (e, t2)" "indexed_data t2 c = Some m"
  shows "m v \<noteq> Some []"
proof -
  let ?idx0 = "\<lambda>c. if c \<in> set (snap_columns d) then Some Map.empty else None"
  obtain e' idx' where r: "index_rebuild ?idx0 (enumerate 0 (snap_records d)) = (e', idx')"
    by (cases "index_rebuild ?idx0 (enumerate 0 (snap_records d))")
  have "\<forall>c m v. ?idx0 c = Some m \<longrightarrow> m v \<noteq> Some []" by auto
  with r have "\<forall>c m v. idx' c = Some m \<longrightarrow> m v \<noteq> Some []" by (rule index_rebuild_nonempty)
  moreover have "indexed_data t2 = idx'"
    using assms(1) r by (auto simp: Table_from_dict_def Let_def)
  ultimately show ?thesis using assms(2) by blast
qed

lemma bucket_empty_iff:
  "idx c = Some m \<Longrightarrow> bucket idx c v = [] \<longleftrightarrow> m v = None \<or> m v = Some []"
  by (cases "m v") (simp_all add: bucket_def)

lemma add_records_columns: "columns (snd (Table_add_records t recs)) = columns t"
proof (induction recs arbitrary: t)
  case Nil
  show ?case by simp
next
  case (Cons r rs)
  show ?case
    by (cases "index_append (indexed_data t) (dict_zip (columns t) r) (int (length (records t)))")
      (auto simp: Let_def Cons.IH split: option.splits)
qed

lemma add_bad_batch:
  assumes "table_inv t" "\<exists>r \<in> set recs. length r \<noteq> length (columns t)"
    "list_all (list_all hashable) recs"
  shows "fst (Table_add_records t recs) = Some SchemaMismatch"
  using assms
proof (induction recs arbitrary: t)
  case Nil
  then show ?case by simp
next
  case (Cons r rs)
  show ?case
  proof (cases "length r = length (columns t)")
    case False
    then show ?thesis by simp
  next
    case True
    let ?rd = "dict_zip (columns t) r"
    let ?t = "t\<lparr>records := records t @ [?rd],
                indexed_data := ins (indexed_data t) ?rd (int (length (records t)))\<rparr>"
    have h: "list_all hashable r" "list_all (list_all hashable) rs" using Cons.prems(3) by simp_all
    have *: "Table_add_records t (r # rs) = Table_add_records ?t rs"
      using True add_one(1)[OF Cons.prems(1) True h(1)] by (simp add: Let_def)
    have "table_inv ?t" by (rule add_one(2)[OF Cons.prems(1) True h(1)])
    moreover have "\<exists>r \<in> set rs. length r \<noteq> length (columns ?t)" using Cons.prems(2) True by simp
    ultimately show ?thesis using Cons.IH * h(2) by simp
  qed
qed

lemma add_failed_no_snapshot:
  "tables db nm = Some t \<Longrightarrow> fst (Table_add_records t recs) \<noteq> None \<Longrightarrow>
     disk (snd (add accepts db nm recs)) = disk db"
  by (auto simp: add_def split: option.splits prod.splits if_splits)

subsection \<open>The examples, evaluated\<close>

lemma scenario_A_eval:
  "scenario_A accepts =
     \<lparr>tables = [''Users'' \<mapsto> users], auth_enabled = False, auth_data = Map.empty,
      current_user = None, cache = Map.empty,
      disk = [''Users'' \<mapsto> (if accepts (Table_to_dict users)
                             then Written (Table_to_dict users) else Emptied)]\<rparr>"
  by (simp add: scenario_A_def db_run_def ElementalDB_init_def table_create_def add_def
      save_table_def users_eval Table_init_def dict_zip_def Let_def Table_to_dict_def)

lemma users_update:
  "Table_update users 1 [IntV 1, StrV ''Alice'', IntV 31] =
    (None, users\<lparr>records := [[(''id'', IntV 1), (''name'', StrV ''Alice''), (''age'', IntV 31)],
                [(''id'', IntV 2), (''name'', StrV ''Bob''), (''age'', IntV 25)]],
      indexed_data := (indexed_data users)
       (''id'' \<mapsto> [IntV 1 \<mapsto> [0], IntV 2 \<mapsto> [1]],
        ''name'' \<mapsto> [StrV ''Alice'' \<mapsto> [0], StrV ''Bob'' \<mapsto> [1]],
        ''age'' \<mapsto> [IntV 30 \<mapsto> [], IntV 25 \<mapsto> [1], IntV 31 \<mapsto> [0]])\<rparr>)"
  by (simp add: users_eval Table_update_def dict_zip_def Let_def fun_upd_twist)

lemma users_search:
  "Table_search users (StrV ''Alice'') [''name''] =
     Inr [[(''id'', IntV 1), (''name'', StrV ''Alice''), (''age'', IntV 30)]]"
  "Table_search users (IntV 30) [''age''] =
     Inr [[(''id'', IntV 1), (''name'', StrV ''Alice''), (''age'', IntV 30)]]"
  by (simp_all add: users_eval Table_search.simps bucket_get_def bucket_def py_index_def)

lemma scenario_B_table:
  "Table_search (snd (Table_update users 1 [IntV 1, StrV ''Alice'', IntV 31])) (StrV ''Alice'') [''name'']
     = Inr [[(''id'', IntV 1), (''name'', StrV ''Alice''), (''age'', IntV 31)]] \<and>
   Table_search (snd (Table_update users 1 [IntV 1, StrV ''Alice'', IntV 31])) (IntV 30) [''age'']
     = Inr []"
  by (simp add: users_update Table_search.simps bucket_get_def bucket_def py_index_def)

lemma save_table_cache: "cache (snd (save_table accepts db nm)) = cache db"
  by (simp add: save_table_def split: option.splits)

lemma search_cache_mono:
  "cache db key = Some r \<Longrightarrow> cache (snd (search db nm v cs)) key = Some r"
  by (auto simp: search_def Let_def split: option.splits sum.splits)

lemma db_step_cache:
  "cache db key = Some r \<Longrightarrow> cache (db_step accepts db call) key = Some r"
proof (cases call)
  case (Search nm v cs)
  then show "cache db key = Some r \<Longrightarrow> ?thesis" by (simp add: search_cache_mono)
qed (auto simp: signup_def signin_def logout_def table_create_def load_table_def add_def
      update_def delete_def save_table_cache
      split: option.splits prod.splits if_splits snapshot_file.splits)

lemma db_run_cache:
  "cache db key = Some r \<Longrightarrow> cache (db_run accepts db calls) key = Some r"
  unfolding db_run_def by (induction calls arbitrary: db) (simp_all add: db_step_cache)

lemma search_stores:
  "search db nm v cs = (Inr res, db1) \<Longrightarrow> cache db1 (nm, v, cs) = Some res \<and> hashable v"
  by (auto simp: search_def Let_def split: option.splits sum.splits if_splits)

lemma search_hit:
  "cache db (nm, v, cs) = Some res \<Longrightarrow> hashable v \<Longrightarrow> search db nm v cs = (Inr res, db)"
  by (simp add: search_def)

lemma one_column_eval:
  "one_column = \<lparr>tables = [''T'' \<mapsto> Table_init ''T'' [''a'']], auth_enabled = False,
     auth_data = Map.empty, current_user = None, cache = Map.empty, disk = Map.empty\<rparr>"
  by (simp add: one_column_def ElementalDB_init_def table_create_def no_user_def)

lemma emptied_eval:
  "emptied = \<lparr>name = ''T'', columns = [''a''], records = [[(''a'', IntV 2)]],
     indexed_data = (\<lambda>c. if c \<in> set [''a''] then Some Map.empty else None)
       (''a'' \<mapsto> [IntV 1 \<mapsto> [], IntV 2 \<mapsto> [0]])\<rparr>"
  by (simp add: emptied_def table_after_def Table_init_def Table_update_def dict_zip_def Let_def)

lemma single_eval:
  "single = \<lparr>name = ''T'', columns = [''a''], records = [[(''a'', IntV 1)]],
     indexed_data = (\<lambda>c. if c \<in> set [''a''] then Some Map.empty else None)
       (''a'' \<mapsto> [IntV 1 \<mapsto> [0]])\<rparr>"
  by (simp add: single_def table_after_def Table_init_def dict_zip_def Let_def)


lemma unindexed_eval:
  "unindexed = \<lparr>name = ''T'', columns = [''a''], records = [[(''a'', ListV [])]],
     indexed_data = (\<lambda>c. if c \<in> set [''a''] then Some Map.empty else None)\<rparr>"
  by (simp add: unindexed_def table_after_def Table_init_def dict_zip_def Let_def)

lemma shifted_eval:
  "shifted = \<lparr>name = ''T'', columns = [''a''], records = [[(''a'', IntV 1)]],
     indexed_data = (\<lambda>c. if c \<in> set [''a''] then Some Map.empty else None)
       (''a'' \<mapsto> [IntV 1 \<mapsto> [1]])\<rparr>"
  by (simp add: shifted_def table_after_def Table_init_def Table_delete_def dict_zip_def Let_def)

section \<open>The claims\<close>

subsection \<open>C1: index consistency\<close>

text \<open>
  C1 as stated fails for a record with a cell that cannot be hashed. On a table with the
  one column \<open>a\<close>, \<^verbatim>\<open>add_records([([],)])\<close> appends the record and then raises
  \<^verbatim>\<open>TypeError\<close> when \<^verbatim>\<open>setdefault\<close> hashes the list: the table \<open>unindexed\<close> has a
  record at position 0 whose value in \<open>a\<close> is no key of \<open>index[a]\<close>.
\<close>

theorem unhashable_cell_breaks_index:
  "unindexed = snd (Table_add_records (Table_init ''T'' [''a'']) [[ListV []]]) \<and>
   fst (Table_add_records (Table_init ''T'' [''a'']) [[ListV []]]) = Some TypeError \<and>
   columns unindexed = [''a''] \<and>
   length (records unindexed) = 1 \<and>
   map_of (records unindexed ! 0) ''a'' = Some (ListV []) \<and>
   indexed_data unindexed ''a'' = Some Map.empty \<and>
   \<not> index_consistent unindexed"
proof -
  have "\<not> index_consistent unindexed"
    by (simp add: index_consistent_def unindexed_eval)
  then show ?thesis
    by (simp add: unindexed_eval Table_init_def dict_zip_def Let_def)
qed

text \<open>
  C1, amended. For every sequence of calls \<^verbatim>\<open>add_records\<close>, \<^verbatim>\<open>update\<close>,
  \<^verbatim>\<open>delete\<close> on a table in which every cell passed can be hashed, after each call (the
  first \<open>k\<close> calls, for every \<open>k\<close>), whether it returned or raised: for every column
  \<open>c\<close> and every position \<open>p\<close> with a record, the value of the record in \<open>c\<close> is a
  key of \<open>index[c]\<close>, \<open>p\<close> is in its bucket and in no other bucket of \<open>index[c]\<close>;
  and no bucket holds a position whose record does not hold the bucket's value.
\<close>

theorem index_consistency:
  assumes "calls_hashable calls"
  shows "index_consistent (table_after nm cols (take k calls)) \<and>
         no_stale (table_after nm cols (take k calls))"
proof -
  have "calls_hashable (take k calls)"
    using assms by (auto simp: calls_hashable_def list_all_iff dest: in_set_takeD)
  then have "table_inv (table_after nm cols (take k calls))" by (rule table_after_inv)
  then show ?thesis by (simp add: inv_consistent inv_no_stale)
qed

theorem index_consistency_witness:
  "calls_hashable users_history \<and>
   ''name'' \<in> set (columns (table_after ''Users'' [''id'', ''name'', ''age''] (take 3 users_history))) \<and>
   0 < length (records (table_after ''Users'' [''id'', ''name'', ''age''] (take 3 users_history))) \<and>
   index_consistent (table_after ''Users'' [''id'', ''name'', ''age''] (take 3 users_history)) \<and>
   no_stale (table_after ''Users'' [''id'', ''name'', ''age''] (take 3 users_history))"
proof -
  have h: "calls_hashable users_history"
    by (simp add: calls_hashable_def users_history_def)
  have "table_after ''Users'' [''id'', ''name'', ''age''] (take 3 users_history) =
          snd (Table_delete (snd (Table_update users 1 [IntV 1, StrV ''Alice'', IntV 31])) 1)"
    by (simp add: users_history_def users_def table_after_def)
  then have
    "''name'' \<in> set (columns (table_after ''Users'' [''id'', ''name'', ''age''] (take 3 users_history)))"
    "0 < length (records (table_after ''Users'' [''id'', ''name'', ''age''] (take 3 users_history)))"
    by (simp_all add: users_update Table_delete_def Let_def split: prod.splits option.splits)
      (simp_all add: users_eval)
  then show ?thesis
    using h index_consistency[OF h, of "''Users''" "[''id'', ''name'', ''age'']" 3]
    by blast
qed

subsection \<open>C2: update visibility through the engine\<close>

text \<open>
  C2 (Scenario B), evaluated on the code. From Scenario A the engine's
  \<^verbatim>\<open>update('Users', 1, (1, 'Alice', 31))\<close> leaves the engine's table as it was: the
  worker process updated its own copy. It returns without raising when \<^verbatim>\<open>orjson.dumps\<close>
  encodes the snapshot of the unchanged table. The search for \<open>Alice\<close> in \<open>name\<close> then
  returns the record with age 30, and the search for \<open>30\<close> in \<open>age\<close> returns that
  record, not the empty list.
\<close>

theorem scenario_B_engine:
  "fst (update accepts (scenario_A accepts) ''Users'' 1 [IntV 1, StrV ''Alice'', IntV 31]) =
     (if accepts (Table_to_dict users) then None else Some EncodeError) \<and>
   tables (snd (update accepts (scenario_A accepts) ''Users'' 1 [IntV 1, StrV ''Alice'', IntV 31])) =
     tables (scenario_A accepts) \<and>
   fst (search (snd (update accepts (scenario_A accepts) ''Users'' 1 [IntV 1, StrV ''Alice'', IntV 31]))
          ''Users'' (StrV ''Alice'') [''name''])
     = Inr [[(''id'', IntV 1), (''name'', StrV ''Alice''), (''age'', IntV 30)]] \<and>
   fst (search (snd (search
          (snd (update accepts (scenario_A accepts) ''Users'' 1 [IntV 1, StrV ''Alice'', IntV 31]))
          ''Users'' (StrV ''Alice'') [''name''])) ''Users'' (IntV 30) [''age''])
     = Inr [[(''id'', IntV 1), (''name'', StrV ''Alice''), (''age'', IntV 30)]]"
  by (simp add: update_def search_def save_table_def scenario_A_eval
      users_update users_search Let_def)

subsection \<open>C3: snapshot round trip\<close>

text \<open>
  C3 as stated fails on the key sets. The table \<open>emptied\<close> is reachable: one record
  with value 1 in column \<open>a\<close>, updated to value 2. Decoding its snapshot returns the
  same records, but the index of \<open>a\<close> has the keys 1 and 2 before (\<^verbatim>\<open>update\<close> left
  the emptied bucket of 1) and only the key 2 after.
\<close>

theorem roundtrip_drops_empty_bucket:
  "fst (Table_from_dict (Table_init ''T'' (snap_columns (Table_to_dict emptied))) (Table_to_dict emptied)) = None \<and>
   records (snd (Table_from_dict (Table_init ''T'' (snap_columns (Table_to_dict emptied))) (Table_to_dict emptied)))
     = records emptied \<and>
   map_option dom (indexed_data emptied ''a'') = Some {IntV 1, IntV 2} \<and>
   map_option dom (indexed_data (snd (Table_from_dict (Table_init ''T'' (snap_columns (Table_to_dict emptied)))
      (Table_to_dict emptied))) ''a'') = Some {IntV 2}"
  by (auto simp: emptied_eval Table_from_dict_def Table_to_dict_def Table_init_def Let_def enumerate_eq_zip)

text \<open>
  C3, amended. For every table reached by calls whose cells can be hashed,
  \<^verbatim>\<open>from_dict\<close> of its \<^verbatim>\<open>to_dict\<close> (on any table object) returns, and yields the same
  columns and the same record sequence; every value has the same position set in every
  column as before; and the keys of each column's index are the keys of the original
  that have a non-empty bucket.
\<close>

theorem snapshot_roundtrip:
  assumes "t = table_after nm cols calls" "calls_hashable calls"
  shows "\<exists>t2. Table_from_dict t0 (Table_to_dict t) = (None, t2) \<and>
     columns t2 = columns t \<and> records t2 = records t \<and>
     (\<forall>c v. set (bucket (indexed_data t2) c v) = set (bucket (indexed_data t) c v)) \<and>
     (\<forall>c m. indexed_data t c = Some m \<longrightarrow>
        (\<exists>m2. indexed_data t2 c = Some m2 \<and> dom m2 = {v \<in> dom m. m v \<noteq> Some []}))"
proof -
  have inv: "table_inv t" using assms by (simp add: table_after_inv)
  from roundtrip[OF inv, of t0] obtain t2 where
    f: "Table_from_dict t0 (Table_to_dict t) = (None, t2)" and inv2: "table_inv t2"
    and cr: "columns t2 = columns t" "records t2 = records t"
    and b: "\<forall>c v. set (bucket (indexed_data t2) c v) = set (bucket (indexed_data t) c v)"
    by blast
  have "\<exists>m2. indexed_data t2 c = Some m2 \<and> dom m2 = {v \<in> dom m. m v \<noteq> Some []}"
    if m: "indexed_data t c = Some m" for c m
  proof -
    have "c \<in> dom (indexed_data t2)" using m inv inv2 cr(1) by (auto simp: table_inv_def)
    then obtain m2 where m2: "indexed_data t2 c = Some m2" by blast
    have "v \<in> dom m2 \<longleftrightarrow> v \<in> dom m \<and> m v \<noteq> Some []" for v
    proof -
      have "v \<in> dom m2 \<longleftrightarrow> bucket (indexed_data t2) c v \<noteq> []"
        using m2 bucket_empty_iff[of "indexed_data t2" c m2 v] from_dict_nonempty[OF f m2, of v]
        by auto
      also have "\<dots> \<longleftrightarrow> bucket (indexed_data t) c v \<noteq> []"
        using b by (metis set_empty)
      also have "\<dots> \<longleftrightarrow> v \<in> dom m \<and> m v \<noteq> Some []"
        using m bucket_empty_iff[of "indexed_data t" c m v] by auto
      finally show ?thesis .
    qed
    then have "dom m2 = {v \<in> dom m. m v \<noteq> Some []}" by blast
    then show ?thesis using m2 by simp
  qed
  then show ?thesis using f cr b by blast
qed

theorem snapshot_roundtrip_witness:
  "calls_hashable [AddRecords [[IntV 1]], Update 1 [IntV 2]] \<and>
   fst (Table_from_dict (Table_init ''T'' [''a'']) (Table_to_dict emptied)) = None \<and>
   records (snd (Table_from_dict (Table_init ''T'' [''a'']) (Table_to_dict emptied))) = records emptied \<and>
   set (bucket (indexed_data (snd (Table_from_dict (Table_init ''T'' [''a'']) (Table_to_dict emptied))))
      ''a'' (IntV 1)) = set (bucket (indexed_data emptied) ''a'' (IntV 1)) \<and>
   indexed_data emptied ''a'' = Some [IntV 1 \<mapsto> [], IntV 2 \<mapsto> [0]] \<and>
   map_option dom (indexed_data (snd (Table_from_dict (Table_init ''T'' [''a'']) (Table_to_dict emptied))) ''a'')
     = Some {IntV 2}"
proof -
  have h: "calls_hashable [AddRecords [[IntV 1]], Update 1 [IntV 2]]"
    by (simp add: calls_hashable_def)
  have e: "indexed_data emptied ''a'' = Some [IntV 1 \<mapsto> [], IntV 2 \<mapsto> [0]]"
    by (simp add: emptied_eval)
  have d: "{v \<in> dom [IntV 1 \<mapsto> [], IntV 2 \<mapsto> [0::int]]. [IntV 1 \<mapsto> [], IntV 2 \<mapsto> [0::int]] v \<noteq> Some []} = {IntV 2}"
    by auto
  from snapshot_roundtrip[OF emptied_def h, of "Table_init ''T'' [''a'']"] obtain t2 where
    t2: "Table_from_dict (Table_init ''T'' [''a'']) (Table_to_dict emptied) = (None, t2)"
      "records t2 = records emptied"
      "\<forall>c v. set (bucket (indexed_data t2) c v) = set (bucket (indexed_data emptied) c v)"
      "\<forall>c m. indexed_data emptied c = Some m \<longrightarrow>
        (\<exists>m2. indexed_data t2 c = Some m2 \<and> dom m2 = {v \<in> dom m. m v \<noteq> Some []})"
    by blast
  from t2(4) e obtain m2 where "indexed_data t2 ''a'' = Some m2"
    "dom m2 = {v \<in> dom [IntV 1 \<mapsto> [], IntV 2 \<mapsto> [0::int]]. [IntV 1 \<mapsto> [], IntV 2 \<mapsto> [0::int]] v \<noteq> Some []}"
    by blast
  then have "map_option dom (indexed_data t2 ''a'') = Some {IntV 2}" using d by simp
  then show ?thesis using h t2(1-3) e by simp
qed

subsection \<open>C4: a failing add\<close>

text \<open>
  C4, evaluated on the code. On a table with the one column \<open>a\<close> and no record, the
  batch \<^verbatim>\<open>[(1,), (1, 2)]\<close> raises the schema mismatch at its second record, after the
  first was appended and indexed: the table has one record and position 0 in the bucket
  of 1. No snapshot is written.
\<close>

theorem add_partial_batch:
  "fst (add accepts one_column ''T'' [[IntV 1], [IntV 1, IntV 2]]) = Some SchemaMismatch \<and>
   map_option records (tables one_column ''T'') = Some [] \<and>
   map_option records (tables (snd (add accepts one_column ''T'' [[IntV 1], [IntV 1, IntV 2]])) ''T'')
     = Some [[(''a'', IntV 1)]] \<and>
   map_option (\<lambda>t. bucket (indexed_data t) ''a'' (IntV 1)) (tables one_column ''T'') = Some [] \<and>
   map_option (\<lambda>t. bucket (indexed_data t) ''a'' (IntV 1))
     (tables (snd (add accepts one_column ''T'' [[IntV 1], [IntV 1, IntV 2]])) ''T'') = Some [0] \<and>
   disk (snd (add accepts one_column ''T'' [[IntV 1], [IntV 1, IntV 2]])) = disk one_column"
  by (simp add: one_column_eval add_def Table_init_def dict_zip_def Let_def bucket_def no_user_def)

subsection \<open>C5: delete renumbering\<close>



subsection \<open>C6: search order and duplication\<close>



subsection \<open>C7: cache hits\<close>

text \<open>
  C7. Once a search has returned a result and stored it under the key
  (table name, value, columns), every later search with that key, after any sequence of
  engine calls, returns that result and leaves the engine as it is; it returns it
  whatever the tables of the engine are then, so it does not read them.
\<close>

theorem cache_hit:
  "search db nm v cs = (Inr res, db1) \<longrightarrow>
     search (db_run accepts db1 calls) nm v cs = (Inr res, db_run accepts db1 calls) \<and>
     search ((db_run accepts db1 calls)\<lparr>tables := ts\<rparr>) nm v cs =
       (Inr res, (db_run accepts db1 calls)\<lparr>tables := ts\<rparr>)"
proof
  assume "search db nm v cs = (Inr res, db1)"
  then have s: "cache db1 (nm, v, cs) = Some res" and h: "hashable v"
    using search_stores by blast+
  from s have c: "cache (db_run accepts db1 calls) (nm, v, cs) = Some res" by (rule db_run_cache)
  then have "cache ((db_run accepts db1 calls)\<lparr>tables := ts\<rparr>) (nm, v, cs) = Some res" by simp
  then show "search (db_run accepts db1 calls) nm v cs = (Inr res, db_run accepts db1 calls) \<and>
     search ((db_run accepts db1 calls)\<lparr>tables := ts\<rparr>) nm v cs =
       (Inr res, (db_run accepts db1 calls)\<lparr>tables := ts\<rparr>)"
    using c h by (simp add: search_hit)
qed

theorem cache_hit_witness:
  "search (scenario_A (\<lambda>s. True)) ''Users'' (StrV ''Alice'') [''name''] =
     (Inr [[(''id'', IntV 1), (''name'', StrV ''Alice''), (''age'', IntV 30)]],
      (scenario_A (\<lambda>s. True))\<lparr>cache := [(''Users'', StrV ''Alice'', [''name'']) \<mapsto>
        [[(''id'', IntV 1), (''name'', StrV ''Alice''), (''age'', IntV 30)]]]\<rparr>) \<and>
   fst (search (db_run (\<lambda>s. True)
        ((scenario_A (\<lambda>s. True))\<lparr>cache := [(''Users'', StrV ''Alice'', [''name'']) \<mapsto>
        [[(''id'', IntV 1), (''name'', StrV ''Alice''), (''age'', IntV 30)]]]\<rparr>) later_calls)
      ''Users'' (StrV ''Alice'') [''name'']) =
     Inr [[(''id'', IntV 1), (''name'', StrV ''Alice''), (''age'', IntV 30)]] \<and>
   map_option (\<lambda>t. map (map_of (records t ! 2)) [''name'', ''age''])
     (tables (db_run (\<lambda>s. True)
        ((scenario_A (\<lambda>s. True))\<lparr>cache := [(''Users'', StrV ''Alice'', [''name'']) \<mapsto>
        [[(''id'', IntV 1), (''name'', StrV ''Alice''), (''age'', IntV 30)]]]\<rparr>) later_calls) ''Users'') =
     Some [Some (StrV ''Alice''), Some (IntV 40)]"
proof -
  let ?res = "[[(''id'', IntV 1), (''name'', StrV ''Alice''), (''age'', IntV 30)]]"
  let ?db1 = "(scenario_A (\<lambda>s. True))\<lparr>cache := [(''Users'', StrV ''Alice'', [''name'']) \<mapsto> ?res]\<rparr>"
  have s: "search (scenario_A (\<lambda>s. True)) ''Users'' (StrV ''Alice'') [''name''] = (Inr ?res, ?db1)"
    by (simp add: search_def scenario_A_eval users_search Let_def)
  have "search (db_run (\<lambda>s. True) ?db1 later_calls) ''Users'' (StrV ''Alice'') [''name''] =
          (Inr ?res, db_run (\<lambda>s. True) ?db1 later_calls)"
    using cache_hit[of "scenario_A (\<lambda>s. True)" "''Users''" "StrV ''Alice''" "[''name'']" ?res ?db1
        "\<lambda>s. True" later_calls "tables (scenario_A (\<lambda>s. True))"] s by blast
  moreover have "map_option (\<lambda>t. map (map_of (records t ! 2)) [''name'', ''age''])
     (tables (db_run (\<lambda>s. True) ?db1 later_calls) ''Users'') =
       Some [Some (StrV ''Alice''), Some (IntV 40)]"
    by (simp add: later_calls_def db_run_def scenario_A_eval add_def update_def delete_def
        save_table_def users_eval dict_zip_def Let_def Table_update_def Table_delete_def)
  ultimately show ?thesis using s by simp
qed

subsection \<open>C8: the authentication gate\<close>

text \<open>
  C8. With authentication enabled and nobody signed in (\<^verbatim>\<open>not self.current_user\<close>),
  each of \<^verbatim>\<open>add\<close>, \<^verbatim>\<open>update\<close>, \<^verbatim>\<open>delete\<close> and \<^verbatim>\<open>table_create\<close> raises
  \<^verbatim>\<open>PermissionError\<close> and leaves the whole engine state as it was: the tables, their
  records and indexes, and the snapshot files.
\<close>

theorem auth_gate:
  "auth_enabled db \<and> no_user db \<longrightarrow>
     add accepts db table_name recs = (Some Unauthenticated, db) \<and>
     update accepts db table_name row_number data = (Some Unauthenticated, db) \<and>
     delete accepts db table_name row_number = (Some Unauthenticated, db) \<and>
     table_create db table_name cols overwrite = (Some Unauthenticated, db)"
  by (simp add: add_def update_def delete_def table_create_def)

theorem auth_gate_witness:
  "auth_enabled locked \<and> current_user locked = None \<and> no_user locked \<and>
   add (\<lambda>s. True) locked ''Users'' [[IntV 1, StrV ''Alice'', IntV 30]] = (Some Unauthenticated, locked) \<and>
   update (\<lambda>s. True) locked ''Users'' 1 [IntV 1, StrV ''Alice'', IntV 31] = (Some Unauthenticated, locked) \<and>
   delete (\<lambda>s. True) locked ''Users'' 1 = (Some Unauthenticated, locked) \<and>
   table_create locked ''Users'' [''id'', ''name'', ''age''] False = (Some Unauthenticated, locked)"
proof -
  have h: "auth_enabled locked" "current_user locked = None" "no_user locked"
    by (simp_all add: locked_def ElementalDB_init_def no_user_def)
  show ?thesis
    using h auth_gate[of locked "\<lambda>s. True" "''Users''" "[[IntV 1, StrV ''Alice'', IntV 30]]" 1
        "[IntV 1, StrV ''Alice'', IntV 31]" "[''id'', ''name'', ''age'']" False]
    by blast
qed

subsection \<open>C9: update keeps emptied buckets\<close>

text \<open>
  C9 as stated fails where the new record holds the same value: the table \<open>single\<close>
  has one record, holding 1 in column \<open>a\<close>, and no other record; after
  \<^verbatim>\<open>update(1, (1,))\<close> the key 1 of \<open>index[a]\<close> is mapped to \<open>[0]\<close>, not to an
  empty list.
\<close>

theorem update_same_value_refills_bucket:
  "length (records single) = 1 \<and>
   map_of (records single ! 0) ''a'' = Some (IntV 1) \<and>
   fst (Table_update single 1 [IntV 1]) = None \<and>
   map_option (\<lambda>m. m (IntV 1)) (indexed_data (snd (Table_update single 1 [IntV 1])) ''a'') =
     Some (Some [0])"
  by (simp add: single_eval Table_update_def dict_zip_def Let_def)

text \<open>
  C9, amended. On every table \<open>t\<close> reached by calls whose cells can be hashed:
  \<^item> \<^verbatim>\<open>update\<close> never removes a key from any column's index, whatever its arguments;
  \<^item> after a valid \<^verbatim>\<open>update(row_number, data)\<close> with cells that can be hashed, whose
    old record held \<open>v\<close> in column \<open>c\<close>, where no other record holds \<open>v\<close> in \<open>c\<close> and
    the new record does not hold \<open>v\<close> in \<open>c\<close>, \<open>index[c]\<close> still has the key \<open>v\<close>,
    mapped to the empty list;
  \<^item> a valid \<^verbatim>\<open>delete(k)\<close> removes from \<open>index[c]\<close> exactly the keys that the deleted
    record held in \<open>c\<close> and whose bucket was \<open>[k - 1]\<close>.
\<close>

theorem update_keeps_emptied_bucket:
  assumes "t = table_after nm cols calls" "calls_hashable calls"
  shows
    "(\<forall>c m. indexed_data t c = Some m \<longrightarrow>
        (\<exists>m'. indexed_data (snd (Table_update t row_number data)) c = Some m' \<and> dom m \<subseteq> dom m')) \<and>
     (1 \<le> row_number \<and> row_number \<le> int (length (records t)) \<and>
      length data = length (columns t) \<and> list_all hashable data \<and>
      map_of (records t ! nat (row_number - 1)) c = Some v \<and>
      (\<forall>q < length (records t). q \<noteq> nat (row_number - 1) \<longrightarrow> map_of (records t ! q) c \<noteq> Some v) \<and>
      map_of (dict_zip (columns t) data) c \<noteq> Some v \<longrightarrow>
        fst (Table_update t row_number data) = None \<and>
        (\<exists>m'. indexed_data (snd (Table_update t row_number data)) c = Some m' \<and> m' v = Some [])) \<and>
     (1 \<le> k \<and> k \<le> int (length (records t)) \<longrightarrow>
        fst (Table_delete t k) = None \<and>
        (\<forall>c m. indexed_data t c = Some m \<longrightarrow>
           (\<exists>m'. indexed_data (snd (Table_delete t k)) c = Some m' \<and>
              dom m' = dom m - {v. map_of (records t ! nat (k - 1)) c = Some v \<and> m v = Some [k - 1]})))"
proof -
  have inv: "table_inv t" using assms by (simp add: table_after_inv)
  show ?thesis
  proof (intro conjI allI impI)
    fix c m assume "indexed_data t c = Some m"
    then show "\<exists>m'. indexed_data (snd (Table_update t row_number data)) c = Some m' \<and> dom m \<subseteq> dom m'"
      by (rule update_keeps_keys)
  next
    assume a: "1 \<le> row_number \<and> row_number \<le> int (length (records t)) \<and>
      length data = length (columns t) \<and> list_all hashable data \<and>
      map_of (records t ! nat (row_number - 1)) c = Some v \<and>
      (\<forall>q < length (records t). q \<noteq> nat (row_number - 1) \<longrightarrow> map_of (records t ! q) c \<noteq> Some v) \<and>
      map_of (dict_zip (columns t) data) c \<noteq> Some v"
    then show "fst (Table_update t row_number data) = None"
      using update_ok(1)[OF inv, of row_number data] by simp
    from a show "\<exists>m'. indexed_data (snd (Table_update t row_number data)) c = Some m' \<and> m' v = Some []"
      using update_empties_bucket[OF inv, of row_number data c v] by blast
  next
    assume a: "1 \<le> k \<and> k \<le> int (length (records t))"
    then show "fst (Table_delete t k) = None" using delete_ok(1)[OF inv, of k] by simp
    fix c m assume "indexed_data t c = Some m"
    then show "\<exists>m'. indexed_data (snd (Table_delete t k)) c = Some m' \<and>
              dom m' = dom m - {v. map_of (records t ! nat (k - 1)) c = Some v \<and> m v = Some [k - 1]}"
      using delete_drops_keys[OF inv, of k c m] a by blast
  qed
qed

theorem update_keeps_emptied_bucket_witness:
  "calls_hashable [AddRecords [[IntV 1]]] \<and> list_all hashable [IntV 2] \<and>
   length (records single) = 1 \<and> length [IntV 2] = length (columns single) \<and>
   map_of (records single ! nat (1 - 1)) ''a'' = Some (IntV 1) \<and>
   map_of (dict_zip (columns single) [IntV 2]) ''a'' \<noteq> Some (IntV 1) \<and>
   fst (Table_update single 1 [IntV 2]) = None \<and>
   (\<exists>m'. indexed_data (snd (Table_update single 1 [IntV 2])) ''a'' = Some m' \<and> m' (IntV 1) = Some []) \<and>
   fst (Table_delete single 1) = None \<and>
   map_option dom (indexed_data single ''a'') = Some {IntV 1} \<and>
   map_option dom (indexed_data (snd (Table_delete single 1)) ''a'') = Some {}"
proof -
  have ch: "calls_hashable [AddRecords [[IntV 1]]]" "list_all hashable [IntV 2]"
    by (simp_all add: calls_hashable_def)
  have h: "length (records single) = 1" "length [IntV 2] = length (columns single)"
    "map_of (records single ! nat (1 - 1)) ''a'' = Some (IntV 1)"
    "map_of (dict_zip (columns single) [IntV 2]) ''a'' \<noteq> Some (IntV 1)"
    by (simp_all add: single_eval dict_zip_def)
  have others: "\<forall>q < length (records single). q \<noteq> nat (1 - 1) \<longrightarrow>
      map_of (records single ! q) ''a'' \<noteq> Some (IntV 1)"
    using h(1) by simp
  have r: "(1::int) \<le> 1" "1 \<le> int (length (records single))" using h(1) by simp_all
  have d: "map_option dom (indexed_data single ''a'') = Some {IntV 1}"
    "map_option dom (indexed_data (snd (Table_delete single 1)) ''a'') = Some {}"
    by (simp_all add: single_eval Table_delete_def Let_def renumber_def)
  from update_keeps_emptied_bucket[OF single_def ch(1), of 1 "[IntV 2]" "''a''" "IntV 1" 1]
    ch(2) h others r
  have "fst (Table_update single 1 [IntV 2]) = None \<and>
        (\<exists>m'. indexed_data (snd (Table_update single 1 [IntV 2])) ''a'' = Some m' \<and> m' (IntV 1) = Some [])"
    "fst (Table_delete single 1) = None"
    by blast+
  then show ?thesis using ch h d by simp
qed

subsection \<open>C10: search is total\<close>

text \<open>
  C10 as stated fails in two ways. A value that cannot be hashed raises
  \<^verbatim>\<open>TypeError\<close> in \<^verbatim>\<open>.get(value, [])\<close>, bucket or no bucket: searching the table of
  Scenario A for the list \<^verbatim>\<open>[]\<close> in \<open>name\<close> raises. And a table that was given a cell
  that cannot be hashed can hold a position without a record: in \<open>shifted\<close> the only
  record is at position 0, \<open>index[a][1]\<close> is \<open>[1]\<close>, and searching for 1 in \<open>a\<close>
  raises \<^verbatim>\<open>IndexError\<close>.
\<close>

theorem search_raises:
  "\<not> hashable (ListV []) \<and>
   Table_search users (ListV []) [''name''] = Inl TypeError \<and>
   hashable (IntV 1) \<and>
   length (records shifted) = 1 \<and>
   bucket (indexed_data shifted) ''a'' (IntV 1) = [1] \<and>
   Table_search shifted (IntV 1) [''a''] = Inl IndexError"
  by (simp add: Table_search.simps bucket_get_def shifted_eval bucket_def py_index_def)

text \<open>
  C10, amended. On every table reached by calls whose cells can be hashed,
  \<^verbatim>\<open>search\<close> returns a list for every value that can be hashed and every list of
  column names. A requested name that is not a column of the table, or a value with no
  bucket in the requested column, contributes nothing: alone it yields the empty list,
  and anywhere in the list of columns it leaves the result as it is without it.
\<close>

theorem search_total:
  assumes "t = table_after nm cols calls" "calls_hashable calls" "hashable v"
  shows "(\<exists>res. Table_search t v cs = Inr res) \<and>
   (c \<notin> set (columns t) \<or> (\<exists>m. indexed_data t c = Some m \<and> m v = None) \<longrightarrow>
      Table_search t v [c] = Inr [] \<and>
      Table_search t v (cs @ c # cs') = Table_search t v (cs @ cs'))"
proof -
  have inv: "table_inv t" using assms(1,2) by (simp add: table_after_inv)
  have "bucket (indexed_data t) c v = []"
    if "c \<notin> set (columns t) \<or> (\<exists>m. indexed_data t c = Some m \<and> m v = None)"
    using that inv_bucket_absent[OF inv, of c v] by (auto simp: bucket_def)
  then show ?thesis by (simp add: inv_search[OF inv assms(3)])
qed

theorem search_total_witness:
  "calls_hashable [AddRecords [[IntV 1, StrV ''Alice'', IntV 30], [IntV 2, StrV ''Bob'', IntV 25]]] \<and>
   hashable (StrV ''Alice'') \<and> hashable (IntV 99) \<and>
   ''email'' \<notin> set (columns users) \<and>
   Table_search users (StrV ''Alice'') [''email''] = Inr [] \<and>
   Table_search users (StrV ''Alice'') ([''name''] @ ''email'' # [''id'']) =
     Table_search users (StrV ''Alice'') ([''name''] @ [''id'']) \<and>
   (\<exists>m. indexed_data users ''age'' = Some m \<and> m (IntV 99) = None) \<and>
   Table_search users (IntV 99) [''age''] = Inr []"
proof -
  have h: "calls_hashable [AddRecords [[IntV 1, StrV ''Alice'', IntV 30], [IntV 2, StrV ''Bob'', IntV 25]]]"
    "hashable (StrV ''Alice'')" "hashable (IntV 99)"
    by (simp_all add: calls_hashable_def)
  have a: "''email'' \<notin> set (columns users)" by (simp add: users_eval)
  have b: "\<exists>m. indexed_data users ''age'' = Some m \<and> m (IntV 99) = None"
    by (simp add: users_eval)
  from search_total[OF users_def h(1,2), of "[''name'']" "''email''" "[''id'']"] a
  have 1: "Table_search users (StrV ''Alice'') [''email''] = Inr []"
    "Table_search users (StrV ''Alice'') ([''name''] @ ''email'' # [''id'']) =
     Table_search users (StrV ''Alice'') ([''name''] @ [''id''])"
    by blast+
  from search_total[OF users_def h(1,3), of "[]" "''age''" "[]"] b
  have 2: "Table_search users (IntV 99) [''age''] = Inr []" by blast
  show ?thesis using h a b 1 2 by blast
qed

end
